theory Spec2Isabelle
  imports Complex_Main "HOL-Library.Multiset" "HOL-Library.AList" "HOL-Library.Char_ord"
    "HOL-Library.List_Lexorder"
begin

section \<open>Smart Pack: zone clustering, bucket aggregation and route sequencing\<close>

text \<open>
  A shallow embedding of the route-grouping core of \<^verbatim>\<open>src/routes/budget.js\<close>
  (the same functions occur in the second server file of the repository):
  \<^verbatim>\<open>getZoneClusterName\<close>, the \<^verbatim>\<open>bucketMap\<close> loop and the final sort of the
  \<^verbatim>\<open>/api/reports/shift-groups\<close> handler, \<^verbatim>\<open>haversineDistance\<close> and
  \<^verbatim>\<open>optimiseRoute\<close>.

  Conventions of the model.
  \<^item> A JavaScript string is a \<^typ>\<open>string\<close>; a \<^typ>\<open>char\<close> stands for the UTF-16 code
    unit of the same number, so the model covers the strings of code units below 256.
  \<^item> A JavaScript number is a value of the type \<open>number\<close> below: a real number (every
    finite double is one), negative zero, an infinity or \<^verbatim>\<open>NaN\<close>. The operations on
    doubles (rounded sums and products, \<^verbatim>\<open>Math.sin\<close> and the like) belong to the runtime;
    they are an argument of the functions that compute with them.
  \<^item> A field that may be absent is a datatype with the cases the handler can meet.
\<close>

subsection \<open>Strings: \<^verbatim>\<open>trim\<close> and \<^verbatim>\<open>toLowerCase\<close>\<close>

text \<open>
  \<^verbatim>\<open>String.prototype.trim\<close> removes white space and line terminators from both ends.
  Below 256 these are the code units 9 to 13, 32 and 160.
\<close>

definition isWhiteSpace :: "char \<Rightarrow> bool" where
  "isWhiteSpace c = ((of_char c :: nat) \<in> {9, 10, 11, 12, 13, 32, 160})"

definition trim :: "string \<Rightarrow> string" where
  "trim s = rev (dropWhile isWhiteSpace (rev (dropWhile isWhiteSpace s)))"

text \<open>
  \<^verbatim>\<open>String.prototype.toLowerCase\<close> below 256: \<open>A\<close> to \<open>Z\<close> and the Latin-1 capitals
  (192 to 222 without the multiplication sign 215) move up by 32.
\<close>

definition lowerChar :: "char \<Rightarrow> char" where
  "lowerChar c =
     (let n = (of_char c :: nat)
      in if (65 \<le> n \<and> n \<le> 90) \<or> (192 \<le> n \<and> n \<le> 214) \<or> (216 \<le> n \<and> n \<le> 222)
         then char_of (n + 32) else c)"

definition toLowerCase :: "string \<Rightarrow> string" where
  "toLowerCase s = map lowerChar s"

subsection \<open>Zone clusterer\<close>

record cluster =
  label :: string
  zones :: "string list"

definition ZONE_CLUSTERS :: "cluster list" where
  "ZONE_CLUSTERS =
     [\<lparr>label = ''Mutley / Greenbank / Lipson / St Judes / Mount Gould'',
       zones = [''Mutley'', ''Greenbank'', ''St Judes, Lipson'', ''St Judes'',
                ''St Jude'' @ [CHR 0x27] @ ''s'', ''Lipson'', ''Mount Gould'',
                ''North Cross'', ''North Hill'']\<rparr>]"

text \<open>The inner loop \<^verbatim>\<open>for (const z of cluster.zones)\<close>: is some alias equal to \<open>lower\<close>?\<close>

fun zoneMatches :: "string \<Rightarrow> string list \<Rightarrow> bool" where
  "zoneMatches lower [] = False"
| "zoneMatches lower (z # zs) =
     (if lower = toLowerCase z then True else zoneMatches lower zs)"

text \<open>
  The outer loop \<^verbatim>\<open>for (const cluster of ZONE_CLUSTERS)\<close>: \<open>Some\<close> is the
  \<^verbatim>\<open>return cluster.label\<close> inside the loops, \<open>None\<close> is falling out of them.
\<close>

fun searchClusters :: "string \<Rightarrow> cluster list \<Rightarrow> string option" where
  "searchClusters lower [] = None"
| "searchClusters lower (c # cs) =
     (if zoneMatches lower (zones c) then Some (label c) else searchClusters lower cs)"

text \<open>
  \<^verbatim>\<open>getZoneClusterName\<close> with the cluster table as an argument; on a string,
  \<^verbatim>\<open>String(zoneName || "")\<close> is the string itself.
\<close>

definition getZoneClusterNameIn :: "cluster list \<Rightarrow> string \<Rightarrow> string" where
  "getZoneClusterNameIn clusters zoneName =
     (let name = trim zoneName
      in if name = [] then ''(unknown)''
         else (let lower = toLowerCase name
               in case searchClusters lower clusters of
                    Some l \<Rightarrow> l
                  | None \<Rightarrow> name))"

definition getZoneClusterName :: "string \<Rightarrow> string" where
  "getZoneClusterName zoneName = getZoneClusterNameIn ZONE_CLUSTERS zoneName"

text \<open>
  The words of the specification: a cluster claims a zone name when one of its aliases
  equals the trimmed name up to letter case.
\<close>

definition claims :: "cluster \<Rightarrow> string \<Rightarrow> bool" where
  "claims c z = (\<exists>a \<in> set (zones c). toLowerCase a = toLowerCase (trim z))"

definition sharesAlias :: "cluster list \<Rightarrow> bool" where
  "sharesAlias cs =
     (\<exists>i < length cs. \<exists>j < length cs. i \<noteq> j \<and>
        (\<exists>a \<in> set (zones (cs ! i)). \<exists>b \<in> set (zones (cs ! j)).
           toLowerCase a = toLowerCase b))"

subsection \<open>Values of record fields\<close>

text \<open>
  A field of a record that comes out of the database holds a value, \<^verbatim>\<open>null\<close>, or is
  absent (\<^verbatim>\<open>undefined\<close>). Coordinates are \<open>number field\<close>, dates and times are
  \<open>string field\<close>.
\<close>

datatype 'a field = Val 'a | Null | Undefined

datatype number = Fin real | NegZero | Infinity | NegInfinity | NaN

text \<open>\<^verbatim>\<open>typeof v === "number"\<close> on a coordinate; \<^verbatim>\<open>NaN\<close> is a number too.\<close>

fun typeofNumber :: "number field \<Rightarrow> bool" where
  "typeofNumber (Val _) = True"
| "typeofNumber Null = False"
| "typeofNumber Undefined = False"

text \<open>
  The conversion to a number that arithmetic applies to its operands: \<^verbatim>\<open>null\<close> is 0
  and \<^verbatim>\<open>undefined\<close> is \<^verbatim>\<open>NaN\<close>.
\<close>

fun toNumber :: "number field \<Rightarrow> number" where
  "toNumber (Val n) = n"
| "toNumber Null = Fin 0"
| "toNumber Undefined = NaN"

text \<open>The conversion to a string that a template literal applies.\<close>

fun toStr :: "string field \<Rightarrow> string" where
  "toStr (Val s) = s"
| "toStr Null = ''null''"
| "toStr Undefined = ''undefined''"

text \<open>The real value of a finite number; both zeros have the value 0.\<close>

fun finiteValue :: "number \<Rightarrow> real option" where
  "finiteValue (Fin x) = Some x"
| "finiteValue NegZero = Some 0"
| "finiteValue _ = None"

text \<open>
  \<^verbatim>\<open>x < y\<close> and \<^verbatim>\<open>x <= y\<close> on numbers compare the values exactly; every comparison
  with \<^verbatim>\<open>NaN\<close> is false.
\<close>

fun jsLess :: "number \<Rightarrow> number \<Rightarrow> bool" where
  "jsLess NaN _ = False"
| "jsLess _ NaN = False"
| "jsLess Infinity _ = False"
| "jsLess _ Infinity = True"
| "jsLess _ NegInfinity = False"
| "jsLess NegInfinity _ = True"
| "jsLess (Fin x) (Fin y) = (x < y)"
| "jsLess (Fin x) NegZero = (x < 0)"
| "jsLess NegZero (Fin y) = (0 < y)"
| "jsLess NegZero NegZero = False"

definition jsLe :: "number \<Rightarrow> number \<Rightarrow> bool" where
  "jsLe a b = (a \<noteq> NaN \<and> b \<noteq> NaN \<and> \<not> jsLess b a)"

subsection \<open>Arithmetic of the runtime\<close>

text \<open>
  The operations on doubles that \<^verbatim>\<open>haversineDistance\<close> uses: \<^verbatim>\<open>+\<close>, \<^verbatim>\<open>-\<close>, \<^verbatim>\<open>*\<close>,
  \<^verbatim>\<open>/\<close>, \<^verbatim>\<open>**\<close>, \<^verbatim>\<open>Math.sin\<close>, \<^verbatim>\<open>Math.cos\<close>, \<^verbatim>\<open>Math.sqrt\<close> and
  \<^verbatim>\<open>Math.atan2\<close>. They round, and the last ones are fixed by the engine only; the model
  takes them as they are.
\<close>

record arith =
  fadd :: "number \<Rightarrow> number \<Rightarrow> number"
  fsub :: "number \<Rightarrow> number \<Rightarrow> number"
  fmul :: "number \<Rightarrow> number \<Rightarrow> number"
  fdiv :: "number \<Rightarrow> number \<Rightarrow> number"
  fpow :: "number \<Rightarrow> number \<Rightarrow> number"
  fsin :: "number \<Rightarrow> number"
  fcos :: "number \<Rightarrow> number"
  fsqrt :: "number \<Rightarrow> number"
  fatan2 :: "number \<Rightarrow> number \<Rightarrow> number"

text \<open>
  The literals are doubles: \<^verbatim>\<open>Math.PI\<close>, and the doubles nearest to 50.4195 and to
  -4.109 (6371000, 180, 2, 1 and -1 are doubles themselves).
\<close>

definition Math_PI :: number where
  "Math_PI = Fin (884279719003555 / 281474976710656)"

definition DH_LAT :: number where
  "DH_LAT = Fin (1773978448532865 / 35184372088832)"

definition DH_LNG :: number where
  "DH_LNG = Fin (- (2313161358608171 / 562949953421312))"

subsection \<open>Great-circle distance\<close>

text \<open>The local function \<^verbatim>\<open>toRad\<close>.\<close>

definition toRad :: "arith \<Rightarrow> number \<Rightarrow> number" where
  "toRad ar d = fdiv ar (fmul ar d Math_PI) (Fin 180)"

text \<open>
  \<^verbatim>\<open>haversineDistance\<close>. Its arguments are read from fields, and each operation
  converts its operands to numbers.
\<close>

definition haversineDistance ::
  "arith \<Rightarrow> number field \<Rightarrow> number field \<Rightarrow> number field \<Rightarrow> number field \<Rightarrow> number" where
  "haversineDistance ar lat1 lng1 lat2 lng2 =
     (let R = Fin 6371000;
          dLat = toRad ar (fsub ar (toNumber lat2) (toNumber lat1));
          dLng = toRad ar (fsub ar (toNumber lng2) (toNumber lng1));
          a = fadd ar
                (fpow ar (fsin ar (fdiv ar dLat (Fin 2))) (Fin 2))
                (fmul ar
                   (fmul ar (fcos ar (toRad ar (toNumber lat1)))
                            (fcos ar (toRad ar (toNumber lat2))))
                   (fpow ar (fsin ar (fdiv ar dLng (Fin 2))) (Fin 2)));
          c = fmul ar (Fin 2) (fatan2 ar (fsqrt ar a) (fsqrt ar (fsub ar (Fin 1) a)))
      in fmul ar R c)"

text \<open>
  In every IEEE arithmetic the result is not below zero: a square root is not negative,
  the arc tangent of two numbers that are not negative is not negative, and neither is
  a product of such numbers. The result may be \<^verbatim>\<open>NaN\<close>.
\<close>

definition nonNegativeDistances :: "arith \<Rightarrow> bool" where
  "nonNegativeDistances ar =
     (\<forall>lat1 lng1 lat2 lng2. \<not> jsLess (haversineDistance ar lat1 lng1 lat2 lng2) (Fin 0))"

subsection \<open>An arithmetic without rounding\<close>

text \<open>\<^verbatim>\<open>Math.atan2(y, x)\<close> on real numbers.\<close>

definition atan2 :: "real \<Rightarrow> real \<Rightarrow> real" where
  "atan2 y x =
     (if 0 < x then arctan (y / x)
      else if x < 0 then (if 0 \<le> y then arctan (y / x) + pi else arctan (y / x) - pi)
      else if 0 < y then pi / 2
      else if y < 0 then - (pi / 2)
      else 0)"

definition exact1 :: "(real \<Rightarrow> real) \<Rightarrow> number \<Rightarrow> number" where
  "exact1 f a = (case finiteValue a of Some x \<Rightarrow> Fin (f x) | None \<Rightarrow> NaN)"

definition exact2 :: "(real \<Rightarrow> real \<Rightarrow> real) \<Rightarrow> number \<Rightarrow> number \<Rightarrow> number" where
  "exact2 f a b =
     (case finiteValue a of
        Some x \<Rightarrow> (case finiteValue b of Some y \<Rightarrow> Fin (f x y) | None \<Rightarrow> NaN)
      | None \<Rightarrow> NaN)"

text \<open>
  One arithmetic among those the model admits, used to instantiate the theorems: on
  finite numbers every operation returns the exact real result (the square root of a
  negative number, a division by zero and a power other than the square are
  \<^verbatim>\<open>NaN\<close>), and an operand that is not finite gives \<^verbatim>\<open>NaN\<close>.
\<close>

definition exactArith :: arith where
  "exactArith =
     \<lparr>fadd = exact2 (\<lambda>x y. x + y),
      fsub = exact2 (\<lambda>x y. x - y),
      fmul = exact2 (\<lambda>x y. x * y),
      fdiv = (\<lambda>a b. if finiteValue b = Some 0 then NaN else exact2 (\<lambda>x y. x / y) a b),
      fpow = (\<lambda>a b. if finiteValue b = Some 2 then exact1 (\<lambda>x. x * x) a else NaN),
      fsin = exact1 sin,
      fcos = exact1 cos,
      fsqrt = (\<lambda>a. case finiteValue a of
                      Some x \<Rightarrow> if x < 0 then NaN else Fin (sqrt x)
                    | None \<Rightarrow> NaN),
      fatan2 = exact2 atan2\<rparr>"

text \<open>
  The formula in the words of the specification, on degrees, with the value of
  \<^verbatim>\<open>Math.PI\<close> for the conversion to radians:
  \<open>a = sin\<^sup>2(\<Delta>lat/2) + cos(lat1) cos(lat2) sin\<^sup>2(\<Delta>lng/2)\<close> and
  \<open>distance = 2 R atan2(\<surd>a, \<surd>(1 - a))\<close> with \<open>R = 6371000\<close>.
\<close>

definition greatCircle :: "real \<Rightarrow> real \<Rightarrow> real \<Rightarrow> real \<Rightarrow> real" where
  "greatCircle lat1 lng1 lat2 lng2 =
     (let rad = (\<lambda>d. d * (884279719003555 / 281474976710656) / 180);
          a = (sin (rad (lat2 - lat1) / 2))\<^sup>2 +
              cos (rad lat1) * cos (rad lat2) * (sin (rad (lng2 - lng1) / 2))\<^sup>2
      in 2 * 6371000 * atan2 (sqrt a) (sqrt (1 - a)))"

subsection \<open>Route sequencer\<close>

text \<open>
  An address as the aggregation pipeline pushes it, with three of its text fields (the
  others are carried along in the same way); \<^verbatim>\<open>optimiseRoute\<close> reads only \<open>lat\<close>
  and \<open>lng\<close>. Two addresses with the same fields are the same element of a list.
\<close>

record address =
  formatted :: string
  postCode :: string
  lat :: "number field"
  lng :: "number field"
  staffName :: string

definition hasCoords :: "address \<Rightarrow> bool" where
  "hasCoords s = (typeofNumber (lat s) \<and> typeofNumber (lng s))"

text \<open>
  The first \<^verbatim>\<open>remaining.forEach\<close> of the inbound branch, from index \<open>i\<close> on, with the
  state \<open>(startIdx, maxDist)\<close>.
\<close>

fun furthestLoop ::
  "arith \<Rightarrow> address list \<Rightarrow> nat \<Rightarrow> nat \<times> number \<Rightarrow> nat \<times> number" where
  "furthestLoop ar [] i st = st"
| "furthestLoop ar (s # ss) i (startIdx, maxDist) =
     (if \<not> typeofNumber (lat s) \<or> \<not> typeofNumber (lng s)
      then furthestLoop ar ss (Suc i) (startIdx, maxDist)
      else (let d = haversineDistance ar (lat s) (lng s) (Val DH_LAT) (Val DH_LNG)
            in if jsLess maxDist d
               then furthestLoop ar ss (Suc i) (i, d)
               else furthestLoop ar ss (Suc i) (startIdx, maxDist)))"

text \<open>
  The \<^verbatim>\<open>remaining.forEach\<close> inside both \<^verbatim>\<open>while\<close> loops, from index \<open>i\<close> on, with
  the state \<open>(bestIdx, bestDist)\<close>; \<open>clat\<close> and \<open>clng\<close> are the \<open>lat\<close> and \<open>lng\<close> of
  \<^verbatim>\<open>current\<close> (inbound) or of \<^verbatim>\<open>currentPos\<close> (outbound).
\<close>

fun nearestLoop ::
  "arith \<Rightarrow> number field \<Rightarrow> number field \<Rightarrow> address list \<Rightarrow> nat \<Rightarrow> nat \<times> number
     \<Rightarrow> nat \<times> number" where
  "nearestLoop ar clat clng [] i st = st"
| "nearestLoop ar clat clng (s # ss) i (bestIdx, bestDist) =
     (if \<not> typeofNumber (lat s) \<or> \<not> typeofNumber (lng s)
      then nearestLoop ar clat clng ss (Suc i) (bestIdx, bestDist)
      else (let d = haversineDistance ar clat clng (lat s) (lng s)
            in if jsLess d bestDist
               then nearestLoop ar clat clng ss (Suc i) (i, d)
               else nearestLoop ar clat clng ss (Suc i) (bestIdx, bestDist)))"

definition startIdxOf :: "arith \<Rightarrow> address list \<Rightarrow> nat" where
  "startIdxOf ar remaining = fst (furthestLoop ar remaining 0 (0, Fin (- 1)))"

definition bestIdxOf :: "arith \<Rightarrow> number field \<Rightarrow> number field \<Rightarrow> address list \<Rightarrow> nat" where
  "bestIdxOf ar clat clng remaining =
     fst (nearestLoop ar clat clng remaining 0 (0, Infinity))"

text \<open>What \<^verbatim>\<open>remaining.splice(i, 1)\<close> leaves in \<^verbatim>\<open>remaining\<close>.\<close>

definition splice :: "nat \<Rightarrow> 'a list \<Rightarrow> 'a list" where
  "splice i xs = take i xs @ drop (Suc i) xs"

text \<open>
  Both searches return an index of the list they ran over, so each \<^verbatim>\<open>splice\<close> removes
  exactly one element and its \<^verbatim>\<open>[0]\<close> is that element.
\<close>

lemma furthestLoop_bound:
  "fst st < i + length ss \<Longrightarrow> fst (furthestLoop ar ss i st) < i + length ss"
proof (induction ar ss i st rule: furthestLoop.induct)
  case (1 ar i st)
  then show ?case by simp
next
  case (2 ar s ss i startIdx maxDist)
  then show ?case by (simp add: Let_def)
qed

lemma nearestLoop_bound:
  "fst st < i + length ss \<Longrightarrow> fst (nearestLoop ar clat clng ss i st) < i + length ss"
proof (induction ar clat clng ss i st rule: nearestLoop.induct)
  case (1 ar clat clng i st)
  then show ?case by simp
next
  case (2 ar clat clng s ss i bestIdx bestDist)
  then show ?case by (simp add: Let_def)
qed

lemma startIdxOf_less: "remaining \<noteq> [] \<Longrightarrow> startIdxOf ar remaining < length remaining"
  using furthestLoop_bound [of "(0, Fin (- 1))" 0 remaining ar]
  by (simp add: startIdxOf_def)

lemma bestIdxOf_less:
  "remaining \<noteq> [] \<Longrightarrow> bestIdxOf ar clat clng remaining < length remaining"
  using nearestLoop_bound [of "(0, Infinity)" 0 remaining ar clat clng]
  by (simp add: bestIdxOf_def)

lemma length_splice: "i < length xs \<Longrightarrow> length (splice i xs) < length xs"
  by (simp add: splice_def)

text \<open>
  The loop \<^verbatim>\<open>while (remaining.length)\<close>, the same in both branches: the result is what
  the loop pushes onto \<^verbatim>\<open>ordered\<close>.
\<close>

function walk ::
  "arith \<Rightarrow> number field \<Rightarrow> number field \<Rightarrow> address list \<Rightarrow> address list" where
  "walk ar clat clng remaining =
     (if remaining = [] then []
      else (let bestIdx = bestIdxOf ar clat clng remaining;
                next = remaining ! bestIdx
            in next # walk ar (lat next) (lng next) (splice bestIdx remaining)))"
  by pat_completeness auto
termination
  by (relation "measure (\<lambda>(ar, clat, clng, remaining). length remaining)")
     (simp_all add: length_splice bestIdxOf_less)

declare walk.simps [simp del]

text \<open>
  \<^verbatim>\<open>optimiseRoute(stops, direction = "inbound")\<close>; \<open>None\<close> is an omitted direction.
  The handler always passes an array, so \<^verbatim>\<open>stops || []\<close> is \<open>stops\<close>.
\<close>

definition optimiseRoute :: "arith \<Rightarrow> address list \<Rightarrow> string option \<Rightarrow> address list" where
  "optimiseRoute ar stops dir =
     (let direction = (case dir of None \<Rightarrow> ''inbound'' | Some d \<Rightarrow> d)
      in if length stops \<le> 1 then stops
         else if direction = ''inbound''
         then (let startIdx = startIdxOf ar stops;
                   current = stops ! startIdx
               in current # walk ar (lat current) (lng current) (splice startIdx stops))
         else walk ar (Val DH_LAT) (Val DH_LNG) stops)"

subsection \<open>The sequencing rule in the words of the specification\<close>

text \<open>
  The distances the rule compares, as the code computes them: from a stop to the Hub
  (the argument order of the seed search) and from the fields of the current position
  to a stop (the argument order of the walk).
\<close>

definition distToHub :: "arith \<Rightarrow> address \<Rightarrow> number" where
  "distToHub ar s = haversineDistance ar (lat s) (lng s) (Val DH_LAT) (Val DH_LNG)"

definition distFrom :: "arith \<Rightarrow> number field \<Rightarrow> number field \<Rightarrow> address \<Rightarrow> number" where
  "distFrom ar clat clng s = haversineDistance ar clat clng (lat s) (lng s)"

text \<open>
  Index \<open>i\<close> holds the first maximum (minimum) of \<open>d\<close> in \<open>xs\<close>: no element is
  further (nearer) and no earlier element is as far (as near). On distances that are
  numbers this is the greatest (least) distance with ties going to the first element.
\<close>

definition isFirstMax :: "('a \<Rightarrow> number) \<Rightarrow> 'a list \<Rightarrow> nat \<Rightarrow> bool" where
  "isFirstMax d xs i =
     (i < length xs \<and> (\<forall>x \<in> set xs. \<not> jsLess (d (xs ! i)) (d x)) \<and>
      (\<forall>x \<in> set (take i xs). \<not> jsLe (d (xs ! i)) (d x)))"

definition isFirstMin :: "('a \<Rightarrow> number) \<Rightarrow> 'a list \<Rightarrow> nat \<Rightarrow> bool" where
  "isFirstMin d xs i =
     (i < length xs \<and> (\<forall>x \<in> set xs. \<not> jsLess (d x) (d (xs ! i))) \<and>
      (\<forall>x \<in> set (take i xs). \<not> jsLe (d x) (d (xs ! i))))"

text \<open>
  \<open>out\<close> is the nearest-neighbour order of \<open>remaining\<close> from the position
  \<open>(clat, clng)\<close>: each stop of \<open>out\<close> is the first nearest of the stops not yet placed,
  seen from the stop placed before it (from the position for the first one).
\<close>

fun nearestNeighbourOrder ::
  "arith \<Rightarrow> number field \<Rightarrow> number field \<Rightarrow> address list \<Rightarrow> address list \<Rightarrow> bool" where
  "nearestNeighbourOrder ar clat clng remaining [] = (remaining = [])"
| "nearestNeighbourOrder ar clat clng remaining (x # out) =
     (\<exists>i \<in> {..<length remaining}.
        isFirstMin (distFrom ar clat clng) remaining i \<and> x = remaining ! i \<and>
        nearestNeighbourOrder ar (lat x) (lng x)
          (take i remaining @ drop (Suc i) remaining) out)"

text \<open>
  \<open>out\<close> starts with the first stop furthest from the Hub and continues in
  nearest-neighbour order from it.
\<close>

fun furthestFirstOrder :: "arith \<Rightarrow> address list \<Rightarrow> address list \<Rightarrow> bool" where
  "furthestFirstOrder ar stops [] = (stops = [])"
| "furthestFirstOrder ar stops (x # out) =
     (\<exists>i \<in> {..<length stops}.
        isFirstMax (distToHub ar) stops i \<and> x = stops ! i \<and>
        nearestNeighbourOrder ar (lat x) (lng x)
          (take i stops @ drop (Suc i) stops) out)"

text \<open>
  A stop without coordinates enters \<open>out\<close> only as the first of the remaining stops,
  and only where no remaining stop with coordinates passes the comparison of the search
  (\<open>d < Infinity\<close> in the walk, \<open>d > -1\<close> in the seed search).
\<close>

fun walkTakesCoordlessByDefault ::
  "arith \<Rightarrow> number field \<Rightarrow> number field \<Rightarrow> address list \<Rightarrow> address list \<Rightarrow> bool" where
  "walkTakesCoordlessByDefault ar clat clng remaining [] = (remaining = [])"
| "walkTakesCoordlessByDefault ar clat clng remaining (x # out) =
     (\<exists>i \<in> {..<length remaining}.
        x = remaining ! i \<and>
        (hasCoords x \<or>
         i = 0 \<and> (\<forall>s \<in> set remaining.
                     hasCoords s \<longrightarrow> \<not> jsLess (distFrom ar clat clng s) Infinity)) \<and>
        walkTakesCoordlessByDefault ar (lat x) (lng x)
          (take i remaining @ drop (Suc i) remaining) out)"

fun seedTakesCoordlessByDefault :: "arith \<Rightarrow> address list \<Rightarrow> address list \<Rightarrow> bool" where
  "seedTakesCoordlessByDefault ar stops [] = (stops = [])"
| "seedTakesCoordlessByDefault ar stops (x # out) =
     (\<exists>i \<in> {..<length stops}.
        x = stops ! i \<and>
        (hasCoords x \<or>
         i = 0 \<and> (\<forall>s \<in> set stops.
                     hasCoords s \<longrightarrow> \<not> jsLess (Fin (- 1)) (distToHub ar s))) \<and>
        walkTakesCoordlessByDefault ar (lat x) (lng x)
          (take i stops @ drop (Suc i) stops) out)"

text \<open>
  Stops for the examples (their coordinates are doubles), two of them without
  coordinates.
\<close>

definition stopA :: address where
  "stopA = \<lparr>formatted = ''A'', postCode = [], lat = Val (Fin 50.5), lng = Val (Fin (- 4.25)),
             staffName = []\<rparr>"

definition stopB :: address where
  "stopB = \<lparr>formatted = ''B'', postCode = [], lat = Val (Fin 50.375),
             lng = Val (Fin (- 4.125)), staffName = []\<rparr>"

definition stopC :: address where
  "stopC = \<lparr>formatted = ''C'', postCode = [], lat = Val (Fin 50.4375),
             lng = Val (Fin (- 4.0625)), staffName = []\<rparr>"

definition stopX :: address where
  "stopX = \<lparr>formatted = ''X'', postCode = [], lat = Undefined, lng = Undefined,
             staffName = []\<rparr>"

definition stopY :: address where
  "stopY = \<lparr>formatted = ''Y'', postCode = [], lat = Val (Fin 50.25), lng = Null,
             staffName = []\<rparr>"

subsection \<open>Bucket aggregation\<close>

text \<open>
  One element of \<^verbatim>\<open>withPickupPointsByZone\<close>: a group of the aggregation pipeline.
  Its \<open>zoneName\<close> is a string (the pipeline replaces a missing zone by
  \<^verbatim>\<open>"(unknown)"\<close>), its \<open>count\<close> a number and its \<open>addresses\<close> an array; the date and
  the time are whatever the grouped bookings hold.
\<close>

record group =
  g_pickupDateISO :: "string field"
  g_onOffDutyTime :: "string field"
  g_zoneName :: string
  g_count :: nat
  g_addresses :: "address list"

text \<open>A value of \<^verbatim>\<open>bucketMap\<close>; \<open>b_zones\<close> is the \<^verbatim>\<open>Set\<close> in insertion order.\<close>

record bucket =
  b_pickupDateISO :: "string field"
  b_onOffDutyTime :: "string field"
  b_clusterName :: string
  b_zones :: "string list"
  b_count :: nat
  b_addresses :: "address list"

text \<open>\<^verbatim>\<open>Set.prototype.add\<close>.\<close>

definition setAdd :: "'a \<Rightarrow> 'a list \<Rightarrow> 'a list" where
  "setAdd x xs = (if x \<in> set xs then xs else xs @ [x])"

text \<open>\<^verbatim>\<open>g.zoneName || "(unknown)"\<close>.\<close>

definition originalZoneOf :: "group \<Rightarrow> string" where
  "originalZoneOf g = (if g_zoneName g = [] then ''(unknown)'' else g_zoneName g)"

text \<open>The template literal \<^verbatim>\<open>`${isoDate}__${time}__${clusterName}`\<close>.\<close>

definition bucketKeyOf :: "string field \<Rightarrow> string field \<Rightarrow> string \<Rightarrow> string" where
  "bucketKeyOf isoDate time clusterName =
     toStr isoDate @ ''__'' @ toStr time @ ''__'' @ clusterName"

text \<open>
  The body of \<^verbatim>\<open>for (const g of withPickupPointsByZone)\<close>. The \<^verbatim>\<open>Map\<close> is an
  association list in insertion order: \<^const>\<open>AList.update\<close> replaces the value of a
  key in place and appends a new key at the end.
\<close>

definition mergeGroup :: "(string \<times> bucket) list \<Rightarrow> group \<Rightarrow> (string \<times> bucket) list" where
  "mergeGroup bucketMap g =
     (let isoDate = g_pickupDateISO g;
          time = g_onOffDutyTime g;
          originalZone = originalZoneOf g;
          clusterName = getZoneClusterName originalZone;
          bucketKey = bucketKeyOf isoDate time clusterName;
          bucket = (case map_of bucketMap bucketKey of
                      None \<Rightarrow> \<lparr>b_pickupDateISO = isoDate, b_onOffDutyTime = time,
                                b_clusterName = clusterName, b_zones = [], b_count = 0,
                                b_addresses = []\<rparr>
                    | Some b \<Rightarrow> b)
      in AList.update bucketKey
           (bucket\<lparr>b_zones := setAdd originalZone (b_zones bucket),
                   b_count := b_count bucket + g_count g,
                   b_addresses := b_addresses bucket @ g_addresses g\<rparr>)
           bucketMap)"

definition aggregate :: "group list \<Rightarrow> (string \<times> bucket) list" where
  "aggregate groups = foldl mergeGroup [] groups"

text \<open>\<^verbatim>\<open>Array.from(bucketMap.values())\<close>.\<close>

definition bucketsOf :: "group list \<Rightarrow> bucket list" where
  "bucketsOf groups = map snd (aggregate groups)"

text \<open>The key of a group as the specification has it, and as the code has it.\<close>

definition tripleOf :: "group \<Rightarrow> string field \<times> string field \<times> string" where
  "tripleOf g = (g_pickupDateISO g, g_onOffDutyTime g, getZoneClusterName (g_zoneName g))"

definition keyOf :: "group \<Rightarrow> string" where
  "keyOf g =
     bucketKeyOf (g_pickupDateISO g) (g_onOffDutyTime g)
       (getZoneClusterName (originalZoneOf g))"

definition bucketTriple :: "bucket \<Rightarrow> string field \<times> string field \<times> string" where
  "bucketTriple b = (b_pickupDateISO b, b_onOffDutyTime b, b_clusterName b)"

text \<open>
  What the loop computes, as a function of the key: the bucket stored under \<open>k\<close> takes
  its date, time and cluster from the first group with this key, and collects the
  zones, counts and addresses of all groups with this key, in their order.
\<close>

definition groupsOfKey :: "string \<Rightarrow> group list \<Rightarrow> group list" where
  "groupsOfKey k gs = filter (\<lambda>g. keyOf g = k) gs"

fun bucketOfGroups :: "group list \<Rightarrow> bucket option" where
  "bucketOfGroups [] = None"
| "bucketOfGroups (g0 # rest) =
     Some \<lparr>b_pickupDateISO = g_pickupDateISO g0,
           b_onOffDutyTime = g_onOffDutyTime g0,
           b_clusterName = getZoneClusterName (originalZoneOf g0),
           b_zones = foldl (\<lambda>zs g. setAdd (originalZoneOf g) zs) [] (g0 # rest),
           b_count = sum_list (map g_count (g0 # rest)),
           b_addresses = concat (map g_addresses (g0 # rest))\<rparr>"

definition bucketOfKey :: "string \<Rightarrow> group list \<Rightarrow> bucket option" where
  "bucketOfKey k gs = bucketOfGroups (groupsOfKey k gs)"

text \<open>Example groups.\<close>

definition groupA :: group where
  "groupA = \<lparr>g_pickupDateISO = Val ''2025-12-24'', g_onOffDutyTime = Val ''08:00'',
              g_zoneName = ''Mutley'', g_count = 2, g_addresses = [stopA, stopB]\<rparr>"

definition groupB :: group where
  "groupB = \<lparr>g_pickupDateISO = Val ''2025-12-24'', g_onOffDutyTime = Val ''08:00'',
              g_zoneName = ''Lipson'', g_count = 1, g_addresses = [stopC]\<rparr>"

definition groupJan :: group where
  "groupJan = \<lparr>g_pickupDateISO = Val ''2026-01-02'', g_onOffDutyTime = Val ''08:00'',
                g_zoneName = ''Mutley'', g_count = 1, g_addresses = [stopC]\<rparr>"

definition groupM :: group where
  "groupM = \<lparr>g_pickupDateISO = Undefined, g_onOffDutyTime = Val ''08:00'',
              g_zoneName = ''Stoke'', g_count = 1, g_addresses = [stopX]\<rparr>"

definition groupP :: group where
  "groupP = \<lparr>g_pickupDateISO = Val ''2025-12-24'', g_onOffDutyTime = Val ''08:00'',
              g_zoneName = ''A__B'', g_count = 1, g_addresses = [stopX]\<rparr>"

definition groupQ :: group where
  "groupQ = \<lparr>g_pickupDateISO = Val ''2025-12-24'', g_onOffDutyTime = Val ''08:00__A'',
              g_zoneName = ''B'', g_count = 1, g_addresses = [stopY]\<rparr>"

subsection \<open>Output assembly\<close>

definition isDigit :: "char \<Rightarrow> bool" where
  "isDigit c = (48 \<le> (of_char c :: nat) \<and> (of_char c :: nat) \<le> 57)"

text \<open>The test \<^verbatim>\<open>/^\d{4}-\d{2}-\d{2}$/\<close>.\<close>

definition matchesISO :: "string \<Rightarrow> bool" where
  "matchesISO s =
     (length s = 10 \<and> list_all isDigit (take 4 s) \<and> s ! 4 = CHR ''-'' \<and>
      list_all isDigit (take 2 (drop 5 s)) \<and> s ! 7 = CHR ''-'' \<and>
      list_all isDigit (drop 8 s))"

fun toDDMMYY :: "string field \<Rightarrow> string" where
  "toDDMMYY (Val s) =
     (if s = [] \<or> \<not> matchesISO s then s
      else (let y = take 4 s; m = take 2 (drop 5 s); d = drop 8 s
            in d @ ''-'' @ m @ ''-'' @ drop 2 y))"
| "toDDMMYY Null = []"
| "toDDMMYY Undefined = []"

text \<open>An element of \<^verbatim>\<open>formatted\<close>.\<close>

record formattedGroup =
  f_pickupDateISO :: string
  f_onOffDutyTime :: "string field"
  f_zoneName :: string
  f_zones :: "string list"
  f_count :: nat
  f_addresses :: "address list"

text \<open>
  The function mapped over the buckets. \<^verbatim>\<open>Array.prototype.sort\<close> without a comparator
  orders strings by their code units, which is the order of \<^typ>\<open>string\<close> here.
\<close>

definition formatBucket :: "arith \<Rightarrow> string \<Rightarrow> bucket \<Rightarrow> formattedGroup" where
  "formatBucket ar direction b =
     (let orderedAddresses = optimiseRoute ar (b_addresses b) (Some direction)
      in \<lparr>f_pickupDateISO = toDDMMYY (b_pickupDateISO b),
          f_onOffDutyTime = b_onOffDutyTime b,
          f_zoneName = b_clusterName b,
          f_zones = sort (b_zones b),
          f_count = b_count b,
          f_addresses = orderedAddresses\<rparr>)"

datatype error = TypeError

text \<open>
  The comparator of \<^verbatim>\<open>formatted.sort\<close>. The collation behind
  \<^verbatim>\<open>String.prototype.localeCompare\<close> belongs to the runtime and is an argument here.
  Calling \<^verbatim>\<open>localeCompare\<close> on a time that is \<^verbatim>\<open>null\<close> or \<^verbatim>\<open>undefined\<close> throws;
  its argument is converted to a string.
\<close>

definition compareGroups ::
  "(string \<Rightarrow> string \<Rightarrow> int) \<Rightarrow> formattedGroup \<Rightarrow> formattedGroup \<Rightarrow> error + int" where
  "compareGroups localeCompare a b =
     (if f_pickupDateISO a \<noteq> f_pickupDateISO b
      then Inr (localeCompare (f_pickupDateISO a) (f_pickupDateISO b))
      else if f_onOffDutyTime a \<noteq> f_onOffDutyTime b
      then (case f_onOffDutyTime a of
              Val t \<Rightarrow> Inr (localeCompare t (toStr (f_onOffDutyTime b)))
            | _ \<Rightarrow> Inl TypeError)
      else Inr (localeCompare (f_zoneName a) (f_zoneName b)))"

text \<open>
  \<^verbatim>\<open>Array.prototype.sort\<close> belongs to the runtime: it is stable, and which pairs it
  compares is left to the engine. The model follows the engine of Node, which sorts an
  array of fewer than 64 elements as one run: it counts the run that starts the array,
  calling the comparator with each element first and the element before it second,
  reverses the run where it is strictly descending, and inserts every element after the
  run into the sorted elements before it by binary search, calling the comparator with
  the element to insert first. An exception of the comparator ends the sort. From 64
  elements on the engine cuts the array into several such runs and merges them; the
  model sorts these arrays as one run too, which gives the same list for a comparator
  that is an order and does not throw.
\<close>

fun countRun :: "('a \<Rightarrow> 'a \<Rightarrow> error + int) \<Rightarrow> bool \<Rightarrow> 'a \<Rightarrow> 'a list \<Rightarrow> error + nat" where
  "countRun cmp isDescending previousElement [] = Inr 0"
| "countRun cmp isDescending previousElement (currentElement # rest) =
     (case cmp currentElement previousElement of
        Inl e \<Rightarrow> Inl e
      | Inr order \<Rightarrow>
          if (if isDescending then 0 \<le> order else order < 0)
          then Inr 0
          else (case countRun cmp isDescending currentElement rest of
                  Inl e \<Rightarrow> Inl e
                | Inr n \<Rightarrow> Inr (Suc n)))"

fun countAndMakeRun :: "('a \<Rightarrow> 'a \<Rightarrow> error + int) \<Rightarrow> 'a list \<Rightarrow> error + (nat \<times> 'a list)" where
  "countAndMakeRun cmp (elementHigh # elementLow # rest) =
     (case cmp elementLow elementHigh of
        Inl e \<Rightarrow> Inl e
      | Inr order \<Rightarrow>
          (let isDescending = order < 0 in
           case countRun cmp isDescending elementLow rest of
             Inl e \<Rightarrow> Inl e
           | Inr n \<Rightarrow>
               (let runLength = 2 + n;
                    workArray = elementHigh # elementLow # rest
                in Inr (runLength,
                        if isDescending
                        then rev (take runLength workArray) @ drop runLength workArray
                        else workArray))))"
| "countAndMakeRun cmp workArray = Inr (1, workArray)"

function insertionPoint ::
  "('a \<Rightarrow> 'a \<Rightarrow> error + int) \<Rightarrow> 'a \<Rightarrow> 'a list \<Rightarrow> nat \<Rightarrow> nat \<Rightarrow> error + nat" where
  "insertionPoint cmp pivot workArray left right =
     (if left < right
      then (let mid = left + (right - left) div 2 in
            case cmp pivot (workArray ! mid) of
              Inl e \<Rightarrow> Inl e
            | Inr order \<Rightarrow>
                if order < 0
                then insertionPoint cmp pivot workArray left mid
                else insertionPoint cmp pivot workArray (mid + 1) right)
      else Inr left)"
  by pat_completeness auto

termination
  by (relation "measure (\<lambda>(cmp, pivot, workArray, left, right). right - left)") auto

declare insertionPoint.simps [simp del]

function binaryInsertionSort ::
  "('a \<Rightarrow> 'a \<Rightarrow> error + int) \<Rightarrow> 'a list \<Rightarrow> nat \<Rightarrow> nat \<Rightarrow> error + 'a list" where
  "binaryInsertionSort cmp workArray start high =
     (if start < high
      then (let pivot = workArray ! start in
            case insertionPoint cmp pivot workArray 0 start of
              Inl e \<Rightarrow> Inl e
            | Inr left \<Rightarrow>
                binaryInsertionSort cmp
                  (take left workArray @ pivot # drop left (take start workArray)
                     @ drop (Suc start) workArray)
                  (Suc start) high)
      else Inr workArray)"
  by pat_completeness auto

termination
  by (relation "measure (\<lambda>(cmp, workArray, start, high). high - start)") auto

declare binaryInsertionSort.simps [simp del]

definition sortWith :: "('a \<Rightarrow> 'a \<Rightarrow> error + int) \<Rightarrow> 'a list \<Rightarrow> error + 'a list" where
  "sortWith cmp xs =
     (if length xs < 2 then Inr xs
      else (case countAndMakeRun cmp xs of
              Inl e \<Rightarrow> Inl e
            | Inr (runLength, workArray) \<Rightarrow>
                binaryInsertionSort cmp workArray runLength (length xs)))"

text \<open>The handler from the bucket loop to the list it sends.\<close>

definition shiftGroups ::
  "arith \<Rightarrow> (string \<Rightarrow> string \<Rightarrow> int) \<Rightarrow> group list \<Rightarrow> string
     \<Rightarrow> error + formattedGroup list" where
  "shiftGroups ar localeCompare groups direction =
     sortWith (compareGroups localeCompare)
       (map (formatBucket ar direction) (bucketsOf groups))"

text \<open>The comparison of strings by code units, as a collation.\<close>

definition codeUnitCompare :: "string \<Rightarrow> string \<Rightarrow> int" where
  "codeUnitCompare a b = (if a < b then - 1 else if a = b then 0 else 1)"

subsection \<open>Properties of the string helpers\<close>

lemma isWhiteSpace_lowerChar: "isWhiteSpace (lowerChar c) = isWhiteSpace c"
proof -
  have "of_char c < (256 :: nat)"
    by simp
  then show ?thesis
    unfolding isWhiteSpace_def lowerChar_def Let_def
    by (auto simp: mod_if)
qed

lemma toLowerCase_dropWhile:
  "toLowerCase (dropWhile isWhiteSpace s) = dropWhile isWhiteSpace (toLowerCase s)"
  by (induction s) (simp_all add: toLowerCase_def isWhiteSpace_lowerChar)

lemma toLowerCase_rev: "toLowerCase (rev s) = rev (toLowerCase s)"
  by (simp add: toLowerCase_def rev_map)

lemma toLowerCase_trim: "toLowerCase (trim s) = trim (toLowerCase s)"
  by (simp add: trim_def toLowerCase_rev toLowerCase_dropWhile)

lemma toLowerCase_Nil_iff: "toLowerCase s = [] \<longleftrightarrow> s = []"
  by (simp add: toLowerCase_def)

subsection \<open>Properties of the clusterer\<close>

lemma zoneMatches_iff: "zoneMatches l zs \<longleftrightarrow> (\<exists>a \<in> set zs. toLowerCase a = l)"
  by (induction zs) auto

lemma zoneMatches_claims: "zoneMatches (toLowerCase (trim z)) (zones c) = claims c z"
  by (simp add: zoneMatches_iff claims_def)

lemma searchClusters_find:
  "searchClusters (toLowerCase (trim z)) cs = map_option label (find (\<lambda>c. claims c z) cs)"
  by (induction cs) (simp_all add: zoneMatches_claims)

lemma getZoneClusterNameIn_find:
  "getZoneClusterNameIn cs z =
     (if trim z = [] then ''(unknown)''
      else case find (\<lambda>c. claims c z) cs of Some c \<Rightarrow> label c | None \<Rightarrow> trim z)"
  by (simp add: getZoneClusterNameIn_def Let_def searchClusters_find split: option.splits)

lemma claims_cong: "toLowerCase z1 = toLowerCase z2 \<Longrightarrow> claims c z1 = claims c z2"
  by (simp add: claims_def toLowerCase_trim)

lemma trim_Nil_cong: "toLowerCase z1 = toLowerCase z2 \<Longrightarrow> trim z1 = [] \<longleftrightarrow> trim z2 = []"
  by (metis toLowerCase_trim toLowerCase_Nil_iff)

text \<open>
  Claim C5. For every string \<open>z\<close>, \<^verbatim>\<open>getZoneClusterName\<close> trims \<open>z\<close>; an empty result
  gives the literal \<^verbatim>\<open>"(unknown)"\<close>; otherwise the label of the first configured cluster
  one of whose aliases equals the trimmed name up to letter case; and when there is no
  such cluster, the trimmed name in its original case.
\<close>

theorem getZoneClusterName_spec:
  "getZoneClusterName z =
     (if trim z = [] then ''(unknown)''
      else case find (\<lambda>c. claims c z) ZONE_CLUSTERS of
             Some c \<Rightarrow> label c
           | None \<Rightarrow> trim z)"
  by (simp add: getZoneClusterName_def getZoneClusterNameIn_find)

theorem getZoneClusterName_spec_witness:
  "trim ''  MUTLEY '' \<noteq> [] \<and>
   claims (hd ZONE_CLUSTERS) ''  MUTLEY '' \<and>
   getZoneClusterName ''  MUTLEY '' = label (hd ZONE_CLUSTERS)"
proof -
  have t: "trim ''  MUTLEY '' \<noteq> []"
    by code_simp
  have c: "claims (hd ZONE_CLUSTERS) ''  MUTLEY ''"
    by code_simp
  have f: "find (\<lambda>c. claims c ''  MUTLEY '') ZONE_CLUSTERS = Some (hd ZONE_CLUSTERS)"
    using c by (simp add: ZONE_CLUSTERS_def)
  show ?thesis
    using t c f getZoneClusterName_spec [of "''  MUTLEY ''"] by simp
qed

text \<open>
  Claim C6 as stated fails: two names that differ only in letter case and match no alias
  are returned as they are, so the two results differ.
\<close>

theorem getZoneClusterName_case_counterexample:
  "toLowerCase ''Stoke'' = toLowerCase ''STOKE'' \<and>
   getZoneClusterName ''Stoke'' \<noteq> getZoneClusterName ''STOKE''"
proof -
  have a: "toLowerCase ''Stoke'' = toLowerCase ''STOKE''"
    by code_simp
  have b: "getZoneClusterName ''Stoke'' = ''Stoke''"
    by code_simp
  have c: "getZoneClusterName ''STOKE'' = ''STOKE''"
    by code_simp
  show ?thesis
    using a b c by simp
qed

text \<open>
  Claim C6, amended. For zone names \<open>z1\<close> and \<open>z2\<close> that are equal up to letter case,
  the results of \<^verbatim>\<open>getZoneClusterName\<close> are equal up to letter case, and they are equal
  when the trimmed name is empty or some configured cluster claims it (as for
  \<^verbatim>\<open>"MUTLEY"\<close> and \<^verbatim>\<open>"mutley"\<close>).
\<close>

theorem getZoneClusterName_up_to_case:
  assumes "toLowerCase z1 = toLowerCase z2"
  shows "toLowerCase (getZoneClusterName z1) = toLowerCase (getZoneClusterName z2) \<and>
         (trim z1 = [] \<or> (\<exists>c \<in> set ZONE_CLUSTERS. claims c z1)
            \<longrightarrow> getZoneClusterName z1 = getZoneClusterName z2)"
proof (cases "trim z1 = []")
  case True
  moreover from True have "trim z2 = []"
    using trim_Nil_cong [OF assms] by simp
  ultimately show ?thesis
    by (simp add: getZoneClusterName_def getZoneClusterNameIn_find)
next
  case False
  then have n2: "trim z2 \<noteq> []"
    using trim_Nil_cong [OF assms] by simp
  have f: "find (\<lambda>c. claims c z1) ZONE_CLUSTERS = find (\<lambda>c. claims c z2) ZONE_CLUSTERS"
    using claims_cong [OF assms] by simp
  show ?thesis
  proof (cases "find (\<lambda>c. claims c z2) ZONE_CLUSTERS")
    case None
    have r1: "getZoneClusterName z1 = trim z1"
      using False None f by (simp add: getZoneClusterName_def getZoneClusterNameIn_find)
    have r2: "getZoneClusterName z2 = trim z2"
      using n2 None by (simp add: getZoneClusterName_def getZoneClusterNameIn_find)
    have "\<not> (\<exists>c \<in> set ZONE_CLUSTERS. claims c z1)"
      using None claims_cong [OF assms] by (simp add: find_None_iff)
    moreover have "toLowerCase (trim z1) = toLowerCase (trim z2)"
      using assms by (simp add: toLowerCase_trim)
    ultimately show ?thesis
      using False by (simp only: r1 r2) simp
  next
    case (Some a)
    have r1: "getZoneClusterName z1 = label a"
      using False Some f by (simp add: getZoneClusterName_def getZoneClusterNameIn_find)
    have r2: "getZoneClusterName z2 = label a"
      using n2 Some by (simp add: getZoneClusterName_def getZoneClusterNameIn_find)
    show ?thesis
      by (simp only: r1 r2) simp
  qed
qed

theorem getZoneClusterName_up_to_case_witness:
  "toLowerCase ''MUTLEY'' = toLowerCase ''mutley'' \<and>
   getZoneClusterName ''MUTLEY'' = getZoneClusterName ''mutley''"
proof -
  have h: "toLowerCase ''MUTLEY'' = toLowerCase ''mutley''"
    by code_simp
  have m: "claims (hd ZONE_CLUSTERS) ''MUTLEY''"
    by code_simp
  have "\<exists>c \<in> set ZONE_CLUSTERS. claims c ''MUTLEY''"
    using m by (simp add: ZONE_CLUSTERS_def)
  then show ?thesis
    using h getZoneClusterName_up_to_case [OF h] by blast
qed

text \<open>
  Claim C9 as stated fails: a cluster table in which two clusters share an alias is
  accepted, and the lookup answers with the label of the first of them.
\<close>

theorem shared_alias_counterexample:
  "sharesAlias [\<lparr>label = ''A'', zones = [''Mutley'']\<rparr>, \<lparr>label = ''B'', zones = [''mutley'']\<rparr>] \<and>
   getZoneClusterNameIn
     [\<lparr>label = ''A'', zones = [''Mutley'']\<rparr>, \<lparr>label = ''B'', zones = [''mutley'']\<rparr>]
     ''Mutley'' = ''A''"
proof -
  have l: "toLowerCase ''Mutley'' = toLowerCase ''mutley''"
    by code_simp
  have s: "sharesAlias
      [\<lparr>label = ''A'', zones = [''Mutley'']\<rparr>, \<lparr>label = ''B'', zones = [''mutley'']\<rparr>]"
    unfolding sharesAlias_def
    by (rule exI [of _ 0], simp, rule exI [of _ 1], simp add: l)
  have g: "getZoneClusterNameIn
      [\<lparr>label = ''A'', zones = [''Mutley'']\<rparr>, \<lparr>label = ''B'', zones = [''mutley'']\<rparr>]
      ''Mutley'' = ''A''"
    by code_simp
  show ?thesis
    using s g by simp
qed

text \<open>
  Claim C9, amended. The cluster table is not checked, neither when it is loaded nor
  later: for every table, also one in which two clusters \<open>i < j\<close> claim the same zone
  name, the lookup returns the label of the first cluster in the table that claims it.
\<close>

theorem shared_alias_first_cluster:
  assumes "trim z \<noteq> []" and "i < j" and "j < length cs"
    and "claims (cs ! i) z" and "claims (cs ! j) z"
    and "\<forall>k < i. \<not> claims (cs ! k) z"
  shows "getZoneClusterNameIn cs z = label (cs ! i)"
proof -
  have "find (\<lambda>c. claims c z) cs = Some (cs ! i)"
    unfolding find_Some_iff using assms by (intro exI [of _ i]) simp
  then show ?thesis
    using assms(1) by (simp add: getZoneClusterNameIn_find)
qed

theorem shared_alias_first_cluster_witness:
  "trim ''Mutley'' \<noteq> [] \<and> (0::nat) < 1 \<and>
   1 < length [\<lparr>label = ''A'', zones = [''Mutley'']\<rparr>, \<lparr>label = ''B'', zones = [''mutley'']\<rparr>] \<and>
   claims ([\<lparr>label = ''A'', zones = [''Mutley'']\<rparr>, \<lparr>label = ''B'', zones = [''mutley'']\<rparr>] ! 0)
     ''Mutley'' \<and>
   claims ([\<lparr>label = ''A'', zones = [''Mutley'']\<rparr>, \<lparr>label = ''B'', zones = [''mutley'']\<rparr>] ! 1)
     ''Mutley'' \<and>
   getZoneClusterNameIn
     [\<lparr>label = ''A'', zones = [''Mutley'']\<rparr>, \<lparr>label = ''B'', zones = [''mutley'']\<rparr>]
     ''Mutley'' = ''A''"
proof -
  let ?cs = "[\<lparr>label = ''A'', zones = [''Mutley'']\<rparr>, \<lparr>label = ''B'', zones = [''mutley'']\<rparr>]"
  have t: "trim ''Mutley'' \<noteq> []"
    by code_simp
  have a: "claims (?cs ! 0) ''Mutley''"
    by code_simp
  have b: "claims (?cs ! 1) ''Mutley''"
    by code_simp
  have "getZoneClusterNameIn ?cs ''Mutley'' = label (?cs ! 0)"
    using shared_alias_first_cluster [of "''Mutley''" 0 1 ?cs] t a b by simp
  then show ?thesis
    using t a b by simp
qed


subsection \<open>Properties of the comparison\<close>

lemma jsLess_irrefl: "\<not> jsLess a a"
  by (cases a) simp_all

lemma jsLess_NaN: "jsLess a b \<Longrightarrow> a \<noteq> NaN \<and> b \<noteq> NaN"
  by (cases a; cases b) simp_all

lemma jsLess_asym: "jsLess a b \<Longrightarrow> \<not> jsLess b a"
  by (cases a; cases b) simp_all

lemma jsLess_trans: "jsLess a b \<Longrightarrow> jsLess b c \<Longrightarrow> jsLess a c"
  by (cases a; cases b; cases c) simp_all

lemma jsLe_less_trans: "jsLe a b \<Longrightarrow> jsLess b c \<Longrightarrow> jsLess a c"
  unfolding jsLe_def by (cases a; cases b; cases c) simp_all

lemma jsLess_not_jsLe: "jsLess a b \<Longrightarrow> \<not> jsLe b a"
  by (simp add: jsLe_def)

lemma not_jsLess_Infinity: "\<not> jsLess a Infinity \<Longrightarrow> \<not> jsLess a b"
  by (cases a; cases b) simp_all

lemma not_above_minus_one: "\<not> jsLess d (Fin 0) \<Longrightarrow> \<not> jsLess (Fin (- 1)) d \<Longrightarrow> d = NaN"
  by (cases d) simp_all

subsection \<open>Properties of the route sequencer: permutation and direction\<close>

lemma mset_splice: "i < length xs \<Longrightarrow> add_mset (xs ! i) (mset (splice i xs)) = mset xs"
proof -
  assume "i < length xs"
  then have "xs = take i xs @ xs ! i # drop (Suc i) xs"
    by (rule id_take_nth_drop)
  then have "mset xs = mset (take i xs @ xs ! i # drop (Suc i) xs)"
    by simp
  then show ?thesis
    by (simp add: splice_def)
qed

lemma mset_walk: "mset (walk ar clat clng remaining) = mset remaining"
proof (induction ar clat clng remaining rule: walk.induct)
  case (1 ar clat clng remaining)
  show ?case
  proof (cases "remaining = []")
    case True
    then show ?thesis by (simp add: walk.simps)
  next
    case False
    let ?i = "bestIdxOf ar clat clng remaining"
    have i: "?i < length remaining"
      using False by (rule bestIdxOf_less)
    have "mset (walk ar (lat (remaining ! ?i)) (lng (remaining ! ?i)) (splice ?i remaining))
            = mset (splice ?i remaining)"
      using "1.IH" [OF False refl refl] .
    then show ?thesis
      using False mset_splice [OF i]
      by (subst walk.simps) (simp add: Let_def)
  qed
qed

lemma mset_optimiseRoute: "mset (optimiseRoute ar stops dir) = mset stops"
proof (cases "length stops \<le> 1")
  case True
  then show ?thesis by (simp add: optimiseRoute_def)
next
  case False
  then have "stops \<noteq> []" by auto
  then have "startIdxOf ar stops < length stops"
    by (rule startIdxOf_less)
  then show ?thesis
    using False mset_splice [of "startIdxOf ar stops" stops]
    by (simp add: optimiseRoute_def Let_def mset_walk)
qed

lemma walk_Nil: "walk ar clat clng [] = []"
  by (simp add: walk.simps)

lemma walk_single: "walk ar clat clng [x] = [x]"
proof -
  have "bestIdxOf ar clat clng [x] < length [x]"
    by (rule bestIdxOf_less) simp
  then have "bestIdxOf ar clat clng [x] = 0" by simp
  then show ?thesis
    by (subst walk.simps) (simp add: Let_def splice_def walk_Nil)
qed

lemma optimiseRoute_outbound:
  "d \<noteq> ''inbound'' \<Longrightarrow>
   optimiseRoute ar stops (Some d) = walk ar (Val DH_LAT) (Val DH_LNG) stops"
proof -
  have short: "length stops \<le> 1 \<Longrightarrow> walk ar (Val DH_LAT) (Val DH_LNG) stops = stops"
    by (cases stops) (simp_all add: walk_Nil walk_single)
  assume "d \<noteq> ''inbound''"
  then show ?thesis
    using short by (simp add: optimiseRoute_def Let_def)
qed

lemma optimiseRoute_inbound:
  assumes "stops \<noteq> []"
  shows "optimiseRoute ar stops (Some ''inbound'') =
           stops ! startIdxOf ar stops #
           walk ar (lat (stops ! startIdxOf ar stops)) (lng (stops ! startIdxOf ar stops))
             (splice (startIdxOf ar stops) stops)"
proof (cases "length stops \<le> 1")
  case True
  with assms obtain x where x: "stops = [x]"
    by (cases stops) auto
  have "startIdxOf ar [x] < length [x]"
    by (rule startIdxOf_less) simp
  then have "startIdxOf ar [x] = 0" by simp
  then show ?thesis
    by (simp add: x optimiseRoute_def splice_def walk_Nil)
next
  case False
  then show ?thesis
    by (simp add: optimiseRoute_def Let_def)
qed

lemma optimiseRoute_default:
  "optimiseRoute ar stops None = optimiseRoute ar stops (Some ''inbound'')"
  by (simp add: optimiseRoute_def)

text \<open>
  Claim C2. For every list of stops, with duplicates and with stops that lack
  coordinates, and for every direction, \<^verbatim>\<open>optimiseRoute\<close> returns a permutation of its
  input: the same elements as a multiset. This holds in every arithmetic.
\<close>

theorem optimiseRoute_permutation: "mset (optimiseRoute ar stops dir) = mset stops"
  by (rule mset_optimiseRoute)

theorem optimiseRoute_permutation_witness:
  "mset (optimiseRoute exactArith [stopX, stopA, stopX, stopY, stopA] (Some ''inbound''))
     = mset [stopX, stopA, stopX, stopY, stopA] \<and>
   mset (optimiseRoute exactArith [stopX, stopA, stopX, stopY, stopA] (Some ''outbound''))
     = mset [stopX, stopA, stopX, stopY, stopA]"
  using optimiseRoute_permutation
      [of exactArith "[stopX, stopA, stopX, stopY, stopA]" "Some ''inbound''"]
    optimiseRoute_permutation
      [of exactArith "[stopX, stopA, stopX, stopY, stopA]" "Some ''outbound''"]
  by simp

text \<open>
  Claim C10. For every list of stops and every direction string other than
  \<^verbatim>\<open>"inbound"\<close>, \<^verbatim>\<open>optimiseRoute\<close> applies the outbound rule: the result is the greedy
  walk that starts from the position of the Hub. Only \<^verbatim>\<open>"inbound"\<close>, which is also the
  value of an omitted direction, selects the rule that seeds the route with the stop found
  by the furthest-stop search.
\<close>

theorem optimiseRoute_direction:
  "(d \<noteq> ''inbound'' \<longrightarrow>
      optimiseRoute ar stops (Some d) = walk ar (Val DH_LAT) (Val DH_LNG) stops) \<and>
   optimiseRoute ar stops None = optimiseRoute ar stops (Some ''inbound'') \<and>
   (stops \<noteq> [] \<longrightarrow>
      optimiseRoute ar stops (Some ''inbound'') =
        stops ! startIdxOf ar stops #
        walk ar (lat (stops ! startIdxOf ar stops)) (lng (stops ! startIdxOf ar stops))
          (splice (startIdxOf ar stops) stops))"
  using optimiseRoute_outbound [of d ar stops] optimiseRoute_inbound [of stops ar]
    optimiseRoute_default [of ar stops]
  by blast

theorem optimiseRoute_direction_witness:
  "''Inbound'' \<noteq> ''inbound'' \<and>
   optimiseRoute exactArith [stopA, stopB, stopC] (Some ''Inbound'')
     = walk exactArith (Val DH_LAT) (Val DH_LNG) [stopA, stopB, stopC] \<and>
   optimiseRoute exactArith [stopA, stopB, stopC] (Some ''outbound'')
     = walk exactArith (Val DH_LAT) (Val DH_LNG) [stopA, stopB, stopC] \<and>
   [stopA, stopB, stopC] \<noteq> [] \<and>
   optimiseRoute exactArith [stopA, stopB, stopC] None =
     [stopA, stopB, stopC] ! startIdxOf exactArith [stopA, stopB, stopC] #
     walk exactArith (lat ([stopA, stopB, stopC] ! startIdxOf exactArith [stopA, stopB, stopC]))
       (lng ([stopA, stopB, stopC] ! startIdxOf exactArith [stopA, stopB, stopC]))
       (splice (startIdxOf exactArith [stopA, stopB, stopC]) [stopA, stopB, stopC])"
  using optimiseRoute_direction [of "''Inbound''" exactArith "[stopA, stopB, stopC]"]
    optimiseRoute_direction [of "''outbound''" exactArith "[stopA, stopB, stopC]"]
  by simp

subsection \<open>Properties of the route sequencer: the two searches\<close>

text \<open>
  What the search of the walk returns, for every list, position and arithmetic: either
  no stop with coordinates passed the comparison and the state is unchanged, or the
  state holds a stop with coordinates that passed it, than which no stop with
  coordinates is nearer and no earlier one is as near.
\<close>

lemma nearestLoop_char:
  "(nearestLoop ar clat clng ss i (bi, bd) = (bi, bd) \<and>
      (\<forall>x \<in> set ss. hasCoords x \<longrightarrow> \<not> jsLess (distFrom ar clat clng x) bd)) \<or>
   (\<exists>m < length ss.
      nearestLoop ar clat clng ss i (bi, bd) = (i + m, distFrom ar clat clng (ss ! m)) \<and>
      hasCoords (ss ! m) \<and>
      jsLess (distFrom ar clat clng (ss ! m)) bd \<and>
      (\<forall>x \<in> set ss. hasCoords x \<longrightarrow>
         \<not> jsLess (distFrom ar clat clng x) (distFrom ar clat clng (ss ! m))) \<and>
      (\<forall>x \<in> set (take m ss). hasCoords x \<longrightarrow>
         \<not> jsLe (distFrom ar clat clng x) (distFrom ar clat clng (ss ! m))))"
proof (induction ss arbitrary: i bi bd)
  case Nil
  then show ?case by simp
next
  case (Cons s ss)
  let ?d = "distFrom ar clat clng"
  let ?loop = "nearestLoop ar clat clng"
  have lift: "\<exists>m < length (s # ss).
      ?loop (s # ss) i (bi, bd) = (i + m, ?d ((s # ss) ! m)) \<and>
      hasCoords ((s # ss) ! m) \<and> jsLess (?d ((s # ss) ! m)) bd \<and>
      (\<forall>x \<in> set (s # ss). hasCoords x \<longrightarrow> \<not> jsLess (?d x) (?d ((s # ss) ! m))) \<and>
      (\<forall>x \<in> set (take m (s # ss)). hasCoords x \<longrightarrow> \<not> jsLe (?d x) (?d ((s # ss) ! m)))"
    if m: "m < length ss"
      and e: "?loop (s # ss) i (bi, bd) = (Suc i + m, ?d (ss ! m))"
      and h: "hasCoords (ss ! m)"
      and l: "jsLess (?d (ss ! m)) bd"
      and mn: "\<forall>x \<in> set ss. hasCoords x \<longrightarrow> \<not> jsLess (?d x) (?d (ss ! m))"
      and fs: "\<forall>x \<in> set (take m ss). hasCoords x \<longrightarrow> \<not> jsLe (?d x) (?d (ss ! m))"
      and s: "hasCoords s \<longrightarrow> \<not> jsLe (?d s) (?d (ss ! m))"
    for m
  proof -
    have s': "hasCoords s \<longrightarrow> \<not> jsLess (?d s) (?d (ss ! m))"
      using s jsLess_NaN [of "?d s" "?d (ss ! m)"] jsLess_asym [of "?d s" "?d (ss ! m)"]
      by (auto simp: jsLe_def)
    have "Suc m < length (s # ss)"
      using m by simp
    moreover have "?loop (s # ss) i (bi, bd) = (i + Suc m, ?d ((s # ss) ! Suc m))"
      using e by simp
    moreover have "hasCoords ((s # ss) ! Suc m)" "jsLess (?d ((s # ss) ! Suc m)) bd"
      using h l by simp_all
    moreover have "\<forall>x \<in> set (s # ss). hasCoords x \<longrightarrow>
        \<not> jsLess (?d x) (?d ((s # ss) ! Suc m))"
      using mn s' by simp
    moreover have "\<forall>x \<in> set (take (Suc m) (s # ss)). hasCoords x \<longrightarrow>
        \<not> jsLe (?d x) (?d ((s # ss) ! Suc m))"
      using fs s by simp
    ultimately show ?thesis by blast
  qed
  show ?case
  proof (cases "hasCoords s")
    case False
    then have step: "?loop (s # ss) i (bi, bd) = ?loop ss (Suc i) (bi, bd)"
      by (auto simp: hasCoords_def)
    from Cons.IH [of "Suc i" bi bd] show ?thesis
    proof (elim disjE conjE exE)
      assume "?loop ss (Suc i) (bi, bd) = (bi, bd)"
        and "\<forall>x \<in> set ss. hasCoords x \<longrightarrow> \<not> jsLess (?d x) bd"
      then show ?thesis
        using step False by simp
    next
      fix m
      assume m: "m < length ss"
        and e: "?loop ss (Suc i) (bi, bd) = (Suc i + m, ?d (ss ! m))"
        and h: "hasCoords (ss ! m)"
        and l: "jsLess (?d (ss ! m)) bd"
        and mn: "\<forall>x \<in> set ss. hasCoords x \<longrightarrow> \<not> jsLess (?d x) (?d (ss ! m))"
        and fs: "\<forall>x \<in> set (take m ss). hasCoords x \<longrightarrow> \<not> jsLe (?d x) (?d (ss ! m))"
      have e': "?loop (s # ss) i (bi, bd) = (Suc i + m, ?d (ss ! m))"
        using e by (simp only: step)
      have "hasCoords s \<longrightarrow> \<not> jsLe (?d s) (?d (ss ! m))"
        using False by simp
      from lift [OF m e' h l mn fs this] show ?thesis by blast
    qed
  next
    case True
    then have tn: "typeofNumber (lat s)" "typeofNumber (lng s)"
      by (simp_all add: hasCoords_def)
    have d: "haversineDistance ar clat clng (lat s) (lng s) = ?d s"
      by (simp add: distFrom_def)
    show ?thesis
    proof (cases "jsLess (?d s) bd")
      case upd: True
      have step: "?loop (s # ss) i (bi, bd) = ?loop ss (Suc i) (i, ?d s)"
        using upd tn d by simp
      from Cons.IH [of "Suc i" i "?d s"] show ?thesis
      proof (elim disjE conjE exE)
        assume e: "?loop ss (Suc i) (i, ?d s) = (i, ?d s)"
          and n: "\<forall>x \<in> set ss. hasCoords x \<longrightarrow> \<not> jsLess (?d x) (?d s)"
        have "0 < length (s # ss)" by simp
        moreover have "?loop (s # ss) i (bi, bd) = (i + 0, ?d ((s # ss) ! 0))"
          using step e by simp
        moreover have "hasCoords ((s # ss) ! 0)" "jsLess (?d ((s # ss) ! 0)) bd"
          using True upd by simp_all
        moreover have "\<forall>x \<in> set (s # ss). hasCoords x \<longrightarrow>
            \<not> jsLess (?d x) (?d ((s # ss) ! 0))"
          using n jsLess_irrefl by simp
        moreover have "\<forall>x \<in> set (take 0 (s # ss)). hasCoords x \<longrightarrow>
            \<not> jsLe (?d x) (?d ((s # ss) ! 0))"
          by simp
        ultimately show ?thesis by blast
      next
        fix m
        assume m: "m < length ss"
          and e: "?loop ss (Suc i) (i, ?d s) = (Suc i + m, ?d (ss ! m))"
          and h: "hasCoords (ss ! m)"
          and l: "jsLess (?d (ss ! m)) (?d s)"
          and mn: "\<forall>x \<in> set ss. hasCoords x \<longrightarrow> \<not> jsLess (?d x) (?d (ss ! m))"
          and fs: "\<forall>x \<in> set (take m ss). hasCoords x \<longrightarrow> \<not> jsLe (?d x) (?d (ss ! m))"
        have l': "jsLess (?d (ss ! m)) bd"
          using l upd by (rule jsLess_trans)
        have e': "?loop (s # ss) i (bi, bd) = (Suc i + m, ?d (ss ! m))"
          using e by (simp only: step)
        have "hasCoords s \<longrightarrow> \<not> jsLe (?d s) (?d (ss ! m))"
          using l by (simp add: jsLess_not_jsLe)
        from lift [OF m e' h l' mn fs this] show ?thesis by blast
      qed
    next
      case noupd: False
      have step: "?loop (s # ss) i (bi, bd) = ?loop ss (Suc i) (bi, bd)"
        using noupd tn d by simp
      from Cons.IH [of "Suc i" bi bd] show ?thesis
      proof (elim disjE conjE exE)
        assume "?loop ss (Suc i) (bi, bd) = (bi, bd)"
          and "\<forall>x \<in> set ss. hasCoords x \<longrightarrow> \<not> jsLess (?d x) bd"
        then show ?thesis
          using step noupd by simp
      next
        fix m
        assume m: "m < length ss"
          and e: "?loop ss (Suc i) (bi, bd) = (Suc i + m, ?d (ss ! m))"
          and h: "hasCoords (ss ! m)"
          and l: "jsLess (?d (ss ! m)) bd"
          and mn: "\<forall>x \<in> set ss. hasCoords x \<longrightarrow> \<not> jsLess (?d x) (?d (ss ! m))"
          and fs: "\<forall>x \<in> set (take m ss). hasCoords x \<longrightarrow> \<not> jsLe (?d x) (?d (ss ! m))"
        have e': "?loop (s # ss) i (bi, bd) = (Suc i + m, ?d (ss ! m))"
          using e by (simp only: step)
        have "\<not> jsLe (?d s) (?d (ss ! m))"
          using noupd l jsLe_less_trans [of "?d s" "?d (ss ! m)" bd] by blast
        then have "hasCoords s \<longrightarrow> \<not> jsLe (?d s) (?d (ss ! m))"
          by simp
        from lift [OF m e' h l mn fs this] show ?thesis by blast
      qed
    qed
  qed
qed

lemma jsLess_le_trans: "jsLess a b \<Longrightarrow> jsLe b c \<Longrightarrow> jsLess a c"
  unfolding jsLe_def by (cases a; cases b; cases c) simp_all

text \<open>
  The same for the search of the seed, with the comparison \<open>d > maxDist\<close>.
\<close>

lemma furthestLoop_char:
  "(furthestLoop ar ss i (bi, bd) = (bi, bd) \<and>
      (\<forall>x \<in> set ss. hasCoords x \<longrightarrow> \<not> jsLess bd (distToHub ar x))) \<or>
   (\<exists>m < length ss.
      furthestLoop ar ss i (bi, bd) = (i + m, distToHub ar (ss ! m)) \<and>
      hasCoords (ss ! m) \<and>
      jsLess bd (distToHub ar (ss ! m)) \<and>
      (\<forall>x \<in> set ss. hasCoords x \<longrightarrow>
         \<not> jsLess (distToHub ar (ss ! m)) (distToHub ar x)) \<and>
      (\<forall>x \<in> set (take m ss). hasCoords x \<longrightarrow>
         \<not> jsLe (distToHub ar (ss ! m)) (distToHub ar x)))"
proof (induction ss arbitrary: i bi bd)
  case Nil
  then show ?case by simp
next
  case (Cons s ss)
  let ?d = "distToHub ar"
  let ?loop = "furthestLoop ar"
  have lift: "\<exists>m < length (s # ss).
      ?loop (s # ss) i (bi, bd) = (i + m, ?d ((s # ss) ! m)) \<and>
      hasCoords ((s # ss) ! m) \<and> jsLess bd (?d ((s # ss) ! m)) \<and>
      (\<forall>x \<in> set (s # ss). hasCoords x \<longrightarrow> \<not> jsLess (?d ((s # ss) ! m)) (?d x)) \<and>
      (\<forall>x \<in> set (take m (s # ss)). hasCoords x \<longrightarrow> \<not> jsLe (?d ((s # ss) ! m)) (?d x))"
    if m: "m < length ss"
      and e: "?loop (s # ss) i (bi, bd) = (Suc i + m, ?d (ss ! m))"
      and h: "hasCoords (ss ! m)"
      and l: "jsLess bd (?d (ss ! m))"
      and mn: "\<forall>x \<in> set ss. hasCoords x \<longrightarrow> \<not> jsLess (?d (ss ! m)) (?d x)"
      and fs: "\<forall>x \<in> set (take m ss). hasCoords x \<longrightarrow> \<not> jsLe (?d (ss ! m)) (?d x)"
      and s: "hasCoords s \<longrightarrow> \<not> jsLe (?d (ss ! m)) (?d s)"
    for m
  proof -
    have s': "hasCoords s \<longrightarrow> \<not> jsLess (?d (ss ! m)) (?d s)"
      using s jsLess_NaN [of "?d (ss ! m)" "?d s"] jsLess_asym [of "?d (ss ! m)" "?d s"]
      by (auto simp: jsLe_def)
    have "Suc m < length (s # ss)"
      using m by simp
    moreover have "?loop (s # ss) i (bi, bd) = (i + Suc m, ?d ((s # ss) ! Suc m))"
      using e by simp
    moreover have "hasCoords ((s # ss) ! Suc m)" "jsLess bd (?d ((s # ss) ! Suc m))"
      using h l by simp_all
    moreover have "\<forall>x \<in> set (s # ss). hasCoords x \<longrightarrow>
        \<not> jsLess (?d ((s # ss) ! Suc m)) (?d x)"
      using mn s' by simp
    moreover have "\<forall>x \<in> set (take (Suc m) (s # ss)). hasCoords x \<longrightarrow>
        \<not> jsLe (?d ((s # ss) ! Suc m)) (?d x)"
      using fs s by simp
    ultimately show ?thesis by blast
  qed
  show ?case
  proof (cases "hasCoords s")
    case False
    then have step: "?loop (s # ss) i (bi, bd) = ?loop ss (Suc i) (bi, bd)"
      by (auto simp: hasCoords_def)
    from Cons.IH [of "Suc i" bi bd] show ?thesis
    proof (elim disjE conjE exE)
      assume "?loop ss (Suc i) (bi, bd) = (bi, bd)"
        and "\<forall>x \<in> set ss. hasCoords x \<longrightarrow> \<not> jsLess bd (?d x)"
      then show ?thesis
        using step False by simp
    next
      fix m
      assume m: "m < length ss"
        and e: "?loop ss (Suc i) (bi, bd) = (Suc i + m, ?d (ss ! m))"
        and h: "hasCoords (ss ! m)"
        and l: "jsLess bd (?d (ss ! m))"
        and mn: "\<forall>x \<in> set ss. hasCoords x \<longrightarrow> \<not> jsLess (?d (ss ! m)) (?d x)"
        and fs: "\<forall>x \<in> set (take m ss). hasCoords x \<longrightarrow> \<not> jsLe (?d (ss ! m)) (?d x)"
      have e': "?loop (s # ss) i (bi, bd) = (Suc i + m, ?d (ss ! m))"
        using e by (simp only: step)
      have "hasCoords s \<longrightarrow> \<not> jsLe (?d (ss ! m)) (?d s)"
        using False by simp
      from lift [OF m e' h l mn fs this] show ?thesis by blast
    qed
  next
    case True
    then have tn: "typeofNumber (lat s)" "typeofNumber (lng s)"
      by (simp_all add: hasCoords_def)
    have d: "haversineDistance ar (lat s) (lng s) (Val DH_LAT) (Val DH_LNG) = ?d s"
      by (simp add: distToHub_def)
    show ?thesis
    proof (cases "jsLess bd (?d s)")
      case upd: True
      have step: "?loop (s # ss) i (bi, bd) = ?loop ss (Suc i) (i, ?d s)"
        using upd tn d by simp
      from Cons.IH [of "Suc i" i "?d s"] show ?thesis
      proof (elim disjE conjE exE)
        assume e: "?loop ss (Suc i) (i, ?d s) = (i, ?d s)"
          and n: "\<forall>x \<in> set ss. hasCoords x \<longrightarrow> \<not> jsLess (?d s) (?d x)"
        have "0 < length (s # ss)" by simp
        moreover have "?loop (s # ss) i (bi, bd) = (i + 0, ?d ((s # ss) ! 0))"
          using step e by simp
        moreover have "hasCoords ((s # ss) ! 0)" "jsLess bd (?d ((s # ss) ! 0))"
          using True upd by simp_all
        moreover have "\<forall>x \<in> set (s # ss). hasCoords x \<longrightarrow>
            \<not> jsLess (?d ((s # ss) ! 0)) (?d x)"
          using n jsLess_irrefl by simp
        moreover have "\<forall>x \<in> set (take 0 (s # ss)). hasCoords x \<longrightarrow>
            \<not> jsLe (?d ((s # ss) ! 0)) (?d x)"
          by simp
        ultimately show ?thesis by blast
      next
        fix m
        assume m: "m < length ss"
          and e: "?loop ss (Suc i) (i, ?d s) = (Suc i + m, ?d (ss ! m))"
          and h: "hasCoords (ss ! m)"
          and l: "jsLess (?d s) (?d (ss ! m))"
          and mn: "\<forall>x \<in> set ss. hasCoords x \<longrightarrow> \<not> jsLess (?d (ss ! m)) (?d x)"
          and fs: "\<forall>x \<in> set (take m ss). hasCoords x \<longrightarrow> \<not> jsLe (?d (ss ! m)) (?d x)"
        have l': "jsLess bd (?d (ss ! m))"
          using upd l by (rule jsLess_trans)
        have e': "?loop (s # ss) i (bi, bd) = (Suc i + m, ?d (ss ! m))"
          using e by (simp only: step)
        have "hasCoords s \<longrightarrow> \<not> jsLe (?d (ss ! m)) (?d s)"
          using l by (simp add: jsLess_not_jsLe)
        from lift [OF m e' h l' mn fs this] show ?thesis by blast
      qed
    next
      case noupd: False
      have step: "?loop (s # ss) i (bi, bd) = ?loop ss (Suc i) (bi, bd)"
        using noupd tn d by simp
      from Cons.IH [of "Suc i" bi bd] show ?thesis
      proof (elim disjE conjE exE)
        assume "?loop ss (Suc i) (bi, bd) = (bi, bd)"
          and "\<forall>x \<in> set ss. hasCoords x \<longrightarrow> \<not> jsLess bd (?d x)"
        then show ?thesis
          using step noupd by simp
      next
        fix m
        assume m: "m < length ss"
          and e: "?loop ss (Suc i) (bi, bd) = (Suc i + m, ?d (ss ! m))"
          and h: "hasCoords (ss ! m)"
          and l: "jsLess bd (?d (ss ! m))"
          and mn: "\<forall>x \<in> set ss. hasCoords x \<longrightarrow> \<not> jsLess (?d (ss ! m)) (?d x)"
          and fs: "\<forall>x \<in> set (take m ss). hasCoords x \<longrightarrow> \<not> jsLe (?d (ss ! m)) (?d x)"
        have e': "?loop (s # ss) i (bi, bd) = (Suc i + m, ?d (ss ! m))"
          using e by (simp only: step)
        have "\<not> jsLe (?d (ss ! m)) (?d s)"
          using noupd l jsLess_le_trans [of bd "?d (ss ! m)" "?d s"] by blast
        then have "hasCoords s \<longrightarrow> \<not> jsLe (?d (ss ! m)) (?d s)"
          by simp
        from lift [OF m e' h l mn fs this] show ?thesis by blast
      qed
    qed
  qed
qed

subsection \<open>Properties of the route sequencer: the greedy rule\<close>

lemma jsLess_NaN_right: "\<not> jsLess a NaN"
  by (cases a) simp_all

lemma bestIdxOf_isFirstMin:
  assumes "\<forall>s \<in> set ss. hasCoords s" and "ss \<noteq> []"
  shows "isFirstMin (distFrom ar clat clng) ss (bestIdxOf ar clat clng ss)"
proof -
  let ?d = "distFrom ar clat clng"
  from nearestLoop_char [of ar clat clng ss 0 0 Infinity] show ?thesis
  proof (elim disjE conjE exE)
    assume e: "nearestLoop ar clat clng ss 0 (0, Infinity) = (0, Infinity)"
      and n: "\<forall>x \<in> set ss. hasCoords x \<longrightarrow> \<not> jsLess (?d x) Infinity"
    have "\<forall>x \<in> set ss. \<not> jsLess (?d x) (?d (ss ! 0))"
      using n assms(1) not_jsLess_Infinity by blast
    then show ?thesis
      using assms(2) e by (simp add: isFirstMin_def bestIdxOf_def)
  next
    fix m
    assume "m < length ss"
      and "nearestLoop ar clat clng ss 0 (0, Infinity) = (0 + m, ?d (ss ! m))"
      and "\<forall>x \<in> set ss. hasCoords x \<longrightarrow> \<not> jsLess (?d x) (?d (ss ! m))"
      and "\<forall>x \<in> set (take m ss). hasCoords x \<longrightarrow> \<not> jsLe (?d x) (?d (ss ! m))"
    moreover have "\<forall>x \<in> set (take m ss). hasCoords x"
      using assms(1) set_take_subset [of m ss] by blast
    ultimately show ?thesis
      using assms(1) by (simp add: isFirstMin_def bestIdxOf_def)
  qed
qed

lemma startIdxOf_isFirstMax:
  assumes "nonNegativeDistances ar" and "\<forall>s \<in> set ss. hasCoords s" and "ss \<noteq> []"
  shows "isFirstMax (distToHub ar) ss (startIdxOf ar ss)"
proof -
  let ?d = "distToHub ar"
  have nn: "\<not> jsLess (?d x) (Fin 0)" for x
    using assms(1) by (simp add: nonNegativeDistances_def distToHub_def)
  from furthestLoop_char [of ar ss 0 0 "Fin (- 1)"] show ?thesis
  proof (elim disjE conjE exE)
    assume e: "furthestLoop ar ss 0 (0, Fin (- 1)) = (0, Fin (- 1))"
      and n: "\<forall>x \<in> set ss. hasCoords x \<longrightarrow> \<not> jsLess (Fin (- 1)) (?d x)"
    have "?d x = NaN" if "x \<in> set ss" for x
      using n assms(2) that nn [of x] not_above_minus_one by blast
    then have "\<forall>x \<in> set ss. \<not> jsLess (?d (ss ! 0)) (?d x)"
      by (simp add: jsLess_NaN_right)
    then show ?thesis
      using assms(3) e by (simp add: isFirstMax_def startIdxOf_def)
  next
    fix m
    assume "m < length ss"
      and "furthestLoop ar ss 0 (0, Fin (- 1)) = (0 + m, ?d (ss ! m))"
      and "\<forall>x \<in> set ss. hasCoords x \<longrightarrow> \<not> jsLess (?d (ss ! m)) (?d x)"
      and "\<forall>x \<in> set (take m ss). hasCoords x \<longrightarrow> \<not> jsLe (?d (ss ! m)) (?d x)"
    moreover have "\<forall>x \<in> set (take m ss). hasCoords x"
      using assms(2) set_take_subset [of m ss] by blast
    ultimately show ?thesis
      using assms(2) by (simp add: isFirstMax_def startIdxOf_def)
  qed
qed

lemma set_splice_subset: "set (splice i xs) \<subseteq> set xs"
  unfolding splice_def using set_take_subset [of i xs] set_drop_subset [of "Suc i" xs] by auto

lemma walk_nearestNeighbourOrder:
  "\<forall>s \<in> set remaining. hasCoords s \<Longrightarrow>
   nearestNeighbourOrder ar clat clng remaining (walk ar clat clng remaining)"
proof (induction "length remaining" arbitrary: remaining clat clng rule: less_induct)
  case less
  show ?case
  proof (cases "remaining = []")
    case True
    then show ?thesis by (simp add: walk.simps)
  next
    case False
    let ?i = "bestIdxOf ar clat clng remaining"
    let ?next = "remaining ! ?i"
    have i: "?i < length remaining"
      using False by (rule bestIdxOf_less)
    have fm: "isFirstMin (distFrom ar clat clng) remaining ?i"
      using less.prems False by (rule bestIdxOf_isFirstMin)
    have "\<forall>s \<in> set (splice ?i remaining). hasCoords s"
      using less.prems set_splice_subset [of ?i remaining] by blast
    then have "nearestNeighbourOrder ar (lat ?next) (lng ?next) (splice ?i remaining)
                 (walk ar (lat ?next) (lng ?next) (splice ?i remaining))"
      using length_splice [OF i] by (intro less.hyps) simp_all
    moreover have "walk ar clat clng remaining =
        ?next # walk ar (lat ?next) (lng ?next) (splice ?i remaining)"
      using False by (subst walk.simps) (simp add: Let_def)
    ultimately show ?thesis
      using i fm by (auto simp: splice_def)
  qed
qed

lemma optimiseRoute_furthestFirstOrder:
  assumes "nonNegativeDistances ar" and "\<forall>s \<in> set stops. hasCoords s"
  shows "furthestFirstOrder ar stops (optimiseRoute ar stops (Some ''inbound''))"
proof (cases "stops = []")
  case True
  then show ?thesis by (simp add: optimiseRoute_def)
next
  case False
  let ?i = "startIdxOf ar stops"
  let ?cur = "stops ! ?i"
  have il: "?i < length stops"
    using False by (rule startIdxOf_less)
  have fm: "isFirstMax (distToHub ar) stops ?i"
    using assms False by (rule startIdxOf_isFirstMax)
  have "\<forall>s \<in> set (splice ?i stops). hasCoords s"
    using assms(2) set_splice_subset [of ?i stops] by blast
  then have "nearestNeighbourOrder ar (lat ?cur) (lng ?cur) (splice ?i stops)
               (walk ar (lat ?cur) (lng ?cur) (splice ?i stops))"
    by (rule walk_nearestNeighbourOrder)
  then have "furthestFirstOrder ar stops
      (?cur # walk ar (lat ?cur) (lng ?cur) (splice ?i stops))"
    using il fm by (auto simp: splice_def)
  then show ?thesis
    by (simp only: optimiseRoute_inbound [OF False])
qed

subsection \<open>Properties of the arithmetic without rounding\<close>

text \<open>
  On real numbers the quantity \<open>a\<close> of \<^verbatim>\<open>haversineDistance\<close> lies between 0 and 1, so
  both square roots are taken of numbers that are not negative.
\<close>

lemma atan2_nonneg: "0 \<le> y \<Longrightarrow> 0 \<le> atan2 y x"
proof -
  assume y: "0 \<le> y"
  have "- (pi / 2) < arctan (y / x)"
    by (rule arctan_lbound)
  then have "0 \<le> arctan (y / x) + pi"
    using pi_gt_zero by linarith
  moreover have "0 < x \<Longrightarrow> 0 \<le> arctan (y / x)"
    using y by simp
  ultimately show ?thesis
    using y by (simp add: atan2_def)
qed

lemma cos_product: "cos (w - u) * cos (w + u) = (cos w)\<^sup>2 - (sin u)\<^sup>2" for w u :: real
proof -
  have "cos (w - u) * cos (w + u) = (cos w * cos u)\<^sup>2 - (sin w * sin u)\<^sup>2"
    by (simp add: cos_add cos_diff power2_eq_square algebra_simps)
  also have "\<dots> = (cos w)\<^sup>2 * (1 - (sin u)\<^sup>2) - (1 - (cos w)\<^sup>2) * (sin u)\<^sup>2"
    by (simp add: power_mult_distrib cos_squared_eq [of u] sin_squared_eq [of w])
  also have "\<dots> = (cos w)\<^sup>2 - (sin u)\<^sup>2"
    by (simp add: algebra_simps)
  finally show ?thesis .
qed

lemma haversine_a_range:
  fixes p q v :: real
  defines "a \<equiv> (sin ((q - p) / 2))\<^sup>2 + cos p * cos q * (sin v)\<^sup>2"
  shows "0 \<le> a \<and> a \<le> 1"
proof -
  define u where "u = (q - p) / 2"
  define w where "w = (q + p) / 2"
  define s where "s = (sin v)\<^sup>2"
  have pq: "p = w - u" "q = w + u"
    by (simp_all add: u_def w_def field_simps)
  have cc: "cos p * cos q = (cos w)\<^sup>2 - (sin u)\<^sup>2"
    unfolding pq by (rule cos_product)
  have a: "a = (sin u)\<^sup>2 * (1 - s) + (cos w)\<^sup>2 * s"
    unfolding a_def cc by (simp add: u_def s_def algebra_simps)
  have s: "0 \<le> s" "s \<le> 1"
    by (simp_all add: s_def abs_square_le_1)
  have su: "0 \<le> (sin u)\<^sup>2" "(sin u)\<^sup>2 \<le> 1"
    by (simp_all add: abs_square_le_1)
  have cw: "0 \<le> (cos w)\<^sup>2" "(cos w)\<^sup>2 \<le> 1"
    by (simp_all add: abs_square_le_1)
  have lo: "0 \<le> (sin u)\<^sup>2 * (1 - s) + (cos w)\<^sup>2 * s"
    using s su cw by (intro add_nonneg_nonneg mult_nonneg_nonneg) simp_all
  have "(sin u)\<^sup>2 * (1 - s) \<le> 1 * (1 - s)"
    using s su by (intro mult_right_mono) simp_all
  then have "(sin u)\<^sup>2 * (1 - s) \<le> 1 - s"
    by simp
  moreover have "(cos w)\<^sup>2 * s \<le> 1 * s"
    using s cw by (intro mult_right_mono) simp_all
  then have "(cos w)\<^sup>2 * s \<le> s"
    by simp
  ultimately have hi: "(sin u)\<^sup>2 * (1 - s) + (cos w)\<^sup>2 * s \<le> 1"
    by linarith
  show ?thesis
    using lo hi by (simp add: a)
qed

text \<open>
  Without rounding, on coordinates that are finite numbers, the code computes the
  formula of the specification, and no operation yields \<^verbatim>\<open>NaN\<close>.
\<close>

lemma exactArith_Fin:
  "fadd exactArith (Fin x) (Fin y) = Fin (x + y)"
  "fsub exactArith (Fin x) (Fin y) = Fin (x - y)"
  "fmul exactArith (Fin x) (Fin y) = Fin (x * y)"
  "fdiv exactArith (Fin x) (Fin y) = (if y = 0 then NaN else Fin (x / y))"
  "fpow exactArith (Fin x) (Fin 2) = Fin (x * x)"
  "fsin exactArith (Fin x) = Fin (sin x)"
  "fcos exactArith (Fin x) = Fin (cos x)"
  "fsqrt exactArith (Fin x) = (if x < 0 then NaN else Fin (sqrt x))"
  "fatan2 exactArith (Fin y) (Fin x) = Fin (atan2 y x)"
  by (simp_all add: exactArith_def exact1_def exact2_def)

lemma haversineDistance_exact:
  "haversineDistance exactArith (Val (Fin lat1)) (Val (Fin lng1)) (Val (Fin lat2))
     (Val (Fin lng2)) = Fin (greatCircle lat1 lng1 lat2 lng2)"
proof -
  define rad :: "real \<Rightarrow> real" where "rad d = d * (884279719003555 / 281474976710656) / 180" for d
  define a where "a = (sin (rad (lat2 - lat1) / 2))\<^sup>2 +
              cos (rad lat1) * cos (rad lat2) * (sin (rad (lng2 - lng1) / 2))\<^sup>2"
  have r: "toRad exactArith (Fin d) = Fin (rad d)" for d
    by (simp add: toRad_def exactArith_Fin Math_PI_def rad_def)
  have d: "rad (lat2 - lat1) = rad lat2 - rad lat1"
    by (simp add: rad_def field_simps)
  have "0 \<le> a \<and> a \<le> 1"
    unfolding a_def d
    by (rule haversine_a_range [where p = "rad lat1" and q = "rad lat2"
          and v = "rad (lng2 - lng1) / 2"])
  then have a01: "\<not> a < 0" "\<not> 1 < a"
    by simp_all
  have g: "greatCircle lat1 lng1 lat2 lng2 = 2 * 6371000 * atan2 (sqrt a) (sqrt (1 - a))"
    by (simp only: greatCircle_def Let_def a_def rad_def)
  have a': "fadd exactArith
          (fpow exactArith (fsin exactArith (fdiv exactArith (Fin (rad (lat2 - lat1))) (Fin 2)))
             (Fin 2))
          (fmul exactArith
             (fmul exactArith (fcos exactArith (Fin (rad lat1)))
                (fcos exactArith (Fin (rad lat2))))
             (fpow exactArith
                (fsin exactArith (fdiv exactArith (Fin (rad (lng2 - lng1))) (Fin 2)))
                (Fin 2))) = Fin a"
    by (simp add: exactArith_Fin a_def power2_eq_square)
  have "haversineDistance exactArith (Val (Fin lat1)) (Val (Fin lng1)) (Val (Fin lat2))
     (Val (Fin lng2)) = Fin (6371000 * (2 * atan2 (sqrt a) (sqrt (1 - a))))"
    unfolding haversineDistance_def Let_def toNumber.simps
    by (simp only: exactArith_Fin(2) r a') (simp add: exactArith_Fin a01)
  then show ?thesis
    by (simp add: g)
qed

lemma exact_sqrt_sign:
  "fsqrt exactArith x = NaN \<or> (\<exists>r. 0 \<le> r \<and> fsqrt exactArith x = Fin r)"
  by (cases "finiteValue x") (simp_all add: exactArith_def)

lemma exact_atan2_sign:
  assumes "y = NaN \<or> (\<exists>r. 0 \<le> r \<and> y = Fin r)"
  shows "fatan2 exactArith y x = NaN \<or> (\<exists>r. 0 \<le> r \<and> fatan2 exactArith y x = Fin r)"
  using assms
  by (cases "finiteValue x") (auto simp: exactArith_def exact2_def atan2_nonneg)

lemma exact_mul_sign:
  assumes "0 \<le> k" and "y = NaN \<or> (\<exists>r. 0 \<le> r \<and> y = Fin r)"
  shows "fmul exactArith (Fin k) y = NaN \<or> (\<exists>r. 0 \<le> r \<and> fmul exactArith (Fin k) y = Fin r)"
  using assms by (auto simp: exactArith_def exact2_def)

lemma nonNegativeDistances_exactArith: "nonNegativeDistances exactArith"
proof -
  have "\<not> jsLess (haversineDistance exactArith lat1 lng1 lat2 lng2) (Fin 0)"
    for lat1 lng1 lat2 lng2
  proof -
    obtain y x where h: "haversineDistance exactArith lat1 lng1 lat2 lng2 =
        fmul exactArith (Fin 6371000)
          (fmul exactArith (Fin 2) (fatan2 exactArith (fsqrt exactArith y) x))"
      by (simp add: haversineDistance_def Let_def)
    have "fmul exactArith (Fin 6371000)
            (fmul exactArith (Fin 2) (fatan2 exactArith (fsqrt exactArith y) x)) = NaN \<or>
          (\<exists>r. 0 \<le> r \<and> fmul exactArith (Fin 6371000)
            (fmul exactArith (Fin 2) (fatan2 exactArith (fsqrt exactArith y) x)) = Fin r)"
      by (intro exact_mul_sign exact_atan2_sign exact_sqrt_sign) simp_all
    then show ?thesis
      unfolding h by auto
  qed
  then show ?thesis
    by (simp add: nonNegativeDistances_def)
qed

text \<open>The literals of the Hub: the doubles lie within half a unit in the last place.\<close>

lemma hub_literals:
  "\<bar>1773978448532865 / 35184372088832 - (50.4195 :: real)\<bar> \<le> 1 / 2 ^ 48"
  "\<bar>- (2313161358608171 / 562949953421312) - (- 4.109 :: real)\<bar> \<le> 1 / 2 ^ 51"
  by simp_all

text \<open>
  Claim C3. For every list of stops that all have numeric coordinates: inbound, the first
  stop of the result is the one with the greatest haversine distance from the Hub
  (50.4195, -4.109), the first such stop of the input on a tie, and each later stop is the
  remaining stop nearest to the stop placed before it, the first such on a tie; outbound,
  the first stop is the one nearest to the Hub and each later stop is the remaining stop
  nearest to the stop placed before it. The distances are the doubles that the code
  computes, in every arithmetic whose distances are not below zero; without rounding
  they are the values of the formula of the specification.
\<close>

theorem optimiseRoute_greedy:
  assumes "nonNegativeDistances ar" and "\<forall>s \<in> set stops. hasCoords s"
  shows "furthestFirstOrder ar stops (optimiseRoute ar stops (Some ''inbound'')) \<and>
         nearestNeighbourOrder ar (Val DH_LAT) (Val DH_LNG) stops
           (optimiseRoute ar stops (Some ''outbound'')) \<and>
         haversineDistance exactArith (Val (Fin lat1)) (Val (Fin lng1)) (Val (Fin lat2))
           (Val (Fin lng2)) = Fin (greatCircle lat1 lng1 lat2 lng2)"
proof (intro conjI)
  show "furthestFirstOrder ar stops (optimiseRoute ar stops (Some ''inbound''))"
    using assms by (rule optimiseRoute_furthestFirstOrder)
  have "optimiseRoute ar stops (Some ''outbound'') = walk ar (Val DH_LAT) (Val DH_LNG) stops"
    by (rule optimiseRoute_outbound) simp
  then show "nearestNeighbourOrder ar (Val DH_LAT) (Val DH_LNG) stops
      (optimiseRoute ar stops (Some ''outbound''))"
    using walk_nearestNeighbourOrder [OF assms(2)] by simp
  show "haversineDistance exactArith (Val (Fin lat1)) (Val (Fin lng1)) (Val (Fin lat2))
      (Val (Fin lng2)) = Fin (greatCircle lat1 lng1 lat2 lng2)"
    by (rule haversineDistance_exact)
qed

theorem optimiseRoute_greedy_witness:
  "nonNegativeDistances exactArith \<and>
   hasCoords stopA \<and> hasCoords stopB \<and> hasCoords stopC \<and>
   furthestFirstOrder exactArith [stopA, stopB, stopC]
     (optimiseRoute exactArith [stopA, stopB, stopC] (Some ''inbound'')) \<and>
   nearestNeighbourOrder exactArith (Val DH_LAT) (Val DH_LNG) [stopA, stopB, stopC]
     (optimiseRoute exactArith [stopA, stopB, stopC] (Some ''outbound''))"
proof -
  have c: "hasCoords stopA" "hasCoords stopB" "hasCoords stopC"
    by (simp_all add: hasCoords_def stopA_def stopB_def stopC_def)
  then have h: "\<forall>s \<in> set [stopA, stopB, stopC]. hasCoords s"
    by simp
  show ?thesis
    using c nonNegativeDistances_exactArith
      optimiseRoute_greedy [OF nonNegativeDistances_exactArith h]
    by blast
qed

subsection \<open>Properties of the route sequencer: stops without coordinates\<close>

lemma bestIdxOf_choice:
  "hasCoords (remaining ! bestIdxOf ar clat clng remaining) \<or>
   bestIdxOf ar clat clng remaining = 0 \<and>
   (\<forall>s \<in> set remaining. hasCoords s \<longrightarrow> \<not> jsLess (distFrom ar clat clng s) Infinity)"
  using nearestLoop_char [of ar clat clng remaining 0 0 Infinity]
  by (auto simp: bestIdxOf_def)

lemma startIdxOf_choice:
  "hasCoords (stops ! startIdxOf ar stops) \<or>
   startIdxOf ar stops = 0 \<and>
   (\<forall>s \<in> set stops. hasCoords s \<longrightarrow> \<not> jsLess (Fin (- 1)) (distToHub ar s))"
  using furthestLoop_char [of ar stops 0 0 "Fin (- 1)"]
  by (auto simp: startIdxOf_def)

lemma walk_takes_coordless_by_default:
  "walkTakesCoordlessByDefault ar clat clng remaining (walk ar clat clng remaining)"
proof (induction "length remaining" arbitrary: remaining clat clng rule: less_induct)
  case less
  show ?case
  proof (cases "remaining = []")
    case True
    then show ?thesis by (simp add: walk.simps)
  next
    case False
    let ?i = "bestIdxOf ar clat clng remaining"
    let ?next = "remaining ! ?i"
    have i: "?i < length remaining"
      using False by (rule bestIdxOf_less)
    have "walkTakesCoordlessByDefault ar (lat ?next) (lng ?next) (splice ?i remaining)
            (walk ar (lat ?next) (lng ?next) (splice ?i remaining))"
      using length_splice [OF i] by (intro less.hyps)
    moreover have "walk ar clat clng remaining =
        ?next # walk ar (lat ?next) (lng ?next) (splice ?i remaining)"
      using False by (subst walk.simps) (simp add: Let_def)
    ultimately show ?thesis
      using i bestIdxOf_choice [of remaining ar clat clng] by (auto simp: splice_def)
  qed
qed

lemma optimiseRoute_seed_takes_coordless_by_default:
  "seedTakesCoordlessByDefault ar stops (optimiseRoute ar stops (Some ''inbound''))"
proof (cases "stops = []")
  case True
  then show ?thesis by (simp add: optimiseRoute_def)
next
  case False
  let ?i = "startIdxOf ar stops"
  let ?cur = "stops ! ?i"
  have il: "?i < length stops"
    using False by (rule startIdxOf_less)
  have "walkTakesCoordlessByDefault ar (lat ?cur) (lng ?cur) (splice ?i stops)
          (walk ar (lat ?cur) (lng ?cur) (splice ?i stops))"
    by (rule walk_takes_coordless_by_default)
  then have "seedTakesCoordlessByDefault ar stops
      (?cur # walk ar (lat ?cur) (lng ?cur) (splice ?i stops))"
    using il startIdxOf_choice [of stops ar] by (auto simp: splice_def)
  then show ?thesis
    by (simp only: optimiseRoute_inbound [OF False])
qed

lemma walk_no_coords:
  "\<forall>s \<in> set remaining. \<not> hasCoords s \<Longrightarrow> walk ar clat clng remaining = remaining"
proof (induction remaining arbitrary: clat clng)
  case Nil
  then show ?case by (simp add: walk_Nil)
next
  case (Cons x xs)
  have "hasCoords ((x # xs) ! bestIdxOf ar clat clng (x # xs)) \<or>
        bestIdxOf ar clat clng (x # xs) = 0"
    using bestIdxOf_choice [of "x # xs" ar clat clng] by (elim disjE conjE) simp_all
  moreover have "\<not> hasCoords ((x # xs) ! bestIdxOf ar clat clng (x # xs))"
    using Cons.prems bestIdxOf_less [of "x # xs" ar clat clng] nth_mem by blast
  ultimately have "bestIdxOf ar clat clng (x # xs) = 0"
    by (elim disjE) simp_all
  then have "walk ar clat clng (x # xs) = x # walk ar (lat x) (lng x) xs"
    by (subst walk.simps) (simp add: Let_def splice_def)
  then show ?case
    using Cons by simp
qed

text \<open>
  Claim C4 as stated fails: where no stop has coordinates, the searches keep their
  initial index 0, so a stop without coordinates is the inbound seed, and another one is
  the next stop of the walk.
\<close>

theorem coordless_seed_counterexample:
  "\<not> hasCoords stopX \<and> \<not> hasCoords stopY \<and>
   startIdxOf exactArith [stopX, stopY] = 0 \<and>
   optimiseRoute exactArith [stopX, stopY] (Some ''inbound'') = [stopX, stopY] \<and>
   optimiseRoute exactArith [stopX, stopY] (Some ''outbound'') = [stopX, stopY]"
proof -
  have x: "\<not> hasCoords stopX" and y: "\<not> hasCoords stopY"
    by (simp_all add: hasCoords_def stopX_def stopY_def)
  have s: "startIdxOf exactArith [stopX, stopY] = 0"
    using x y by (simp add: startIdxOf_def hasCoords_def)
  have w: "walk exactArith clat clng [stopX, stopY] = [stopX, stopY]" for clat clng
    using x y by (intro walk_no_coords) simp
  have w1: "walk exactArith clat clng [stopY] = [stopY]" for clat clng
    by (rule walk_single)
  show ?thesis
    using x y s w w1 by (simp add: optimiseRoute_def splice_def)
qed

text \<open>
  Claim C4, amended. For every list of stops, both directions and every arithmetic, a
  stop that lacks a coordinate is never chosen by a comparison of distances: it becomes
  the inbound seed or the next stop of the walk only as the first of the remaining stops,
  through the initial index 0, and only where no remaining stop with coordinates passes
  the comparison of the search. Every stop of the input appears in the result.
\<close>

theorem optimiseRoute_coordless_by_default:
  "seedTakesCoordlessByDefault ar stops (optimiseRoute ar stops (Some ''inbound'')) \<and>
   walkTakesCoordlessByDefault ar (Val DH_LAT) (Val DH_LNG) stops
     (optimiseRoute ar stops (Some ''outbound'')) \<and>
   set (optimiseRoute ar stops dir) = set stops"
proof (intro conjI)
  show "seedTakesCoordlessByDefault ar stops (optimiseRoute ar stops (Some ''inbound''))"
    by (rule optimiseRoute_seed_takes_coordless_by_default)
  have "optimiseRoute ar stops (Some ''outbound'') = walk ar (Val DH_LAT) (Val DH_LNG) stops"
    by (rule optimiseRoute_outbound) simp
  then show "walkTakesCoordlessByDefault ar (Val DH_LAT) (Val DH_LNG) stops
      (optimiseRoute ar stops (Some ''outbound''))"
    by (simp add: walk_takes_coordless_by_default)
  show "set (optimiseRoute ar stops dir) = set stops"
    using mset_optimiseRoute [of ar stops dir] by (rule mset_eq_setD)
qed

theorem optimiseRoute_coordless_by_default_witness:
  "seedTakesCoordlessByDefault exactArith [stopX, stopA, stopY]
     (optimiseRoute exactArith [stopX, stopA, stopY] (Some ''inbound'')) \<and>
   walkTakesCoordlessByDefault exactArith (Val DH_LAT) (Val DH_LNG) [stopX, stopA, stopY]
     (optimiseRoute exactArith [stopX, stopA, stopY] (Some ''outbound'')) \<and>
   stopX \<in> set (optimiseRoute exactArith [stopX, stopA, stopY] (Some ''inbound'')) \<and>
   stopY \<in> set (optimiseRoute exactArith [stopX, stopA, stopY] (Some ''inbound''))"
  using optimiseRoute_coordless_by_default
    [of exactArith "[stopX, stopA, stopY]" "Some ''inbound''"]
  by simp

subsection \<open>Properties of the bucket aggregation\<close>

text \<open>Replacing an empty zone name by \<^verbatim>\<open>"(unknown)"\<close> does not change the cluster.\<close>

lemma getZoneClusterName_originalZoneOf:
  "getZoneClusterName (originalZoneOf g) = getZoneClusterName (g_zoneName g)"
proof -
  have "getZoneClusterName ''(unknown)'' = ''(unknown)''"
    by code_simp
  moreover have "getZoneClusterName [] = ''(unknown)''"
    by code_simp
  ultimately show ?thesis
    by (simp add: originalZoneOf_def)
qed

lemma tripleOf_alt:
  "tripleOf g =
     (g_pickupDateISO g, g_onOffDutyTime g, getZoneClusterName (originalZoneOf g))"
  by (simp add: tripleOf_def getZoneClusterName_originalZoneOf)

lemma mergeGroup_update:
  "mergeGroup bucketMap g =
     AList.update (keyOf g)
       ((case map_of bucketMap (keyOf g) of
           None \<Rightarrow> \<lparr>b_pickupDateISO = g_pickupDateISO g, b_onOffDutyTime = g_onOffDutyTime g,
                     b_clusterName = getZoneClusterName (originalZoneOf g), b_zones = [],
                     b_count = 0, b_addresses = []\<rparr>
         | Some b \<Rightarrow> b)
        \<lparr>b_zones := setAdd (originalZoneOf g)
            (b_zones (case map_of bucketMap (keyOf g) of
               None \<Rightarrow> \<lparr>b_pickupDateISO = g_pickupDateISO g,
                         b_onOffDutyTime = g_onOffDutyTime g,
                         b_clusterName = getZoneClusterName (originalZoneOf g), b_zones = [],
                         b_count = 0, b_addresses = []\<rparr>
             | Some b \<Rightarrow> b)),
          b_count := b_count (case map_of bucketMap (keyOf g) of
               None \<Rightarrow> \<lparr>b_pickupDateISO = g_pickupDateISO g,
                         b_onOffDutyTime = g_onOffDutyTime g,
                         b_clusterName = getZoneClusterName (originalZoneOf g), b_zones = [],
                         b_count = 0, b_addresses = []\<rparr>
             | Some b \<Rightarrow> b) + g_count g,
          b_addresses := b_addresses (case map_of bucketMap (keyOf g) of
               None \<Rightarrow> \<lparr>b_pickupDateISO = g_pickupDateISO g,
                         b_onOffDutyTime = g_onOffDutyTime g,
                         b_clusterName = getZoneClusterName (originalZoneOf g), b_zones = [],
                         b_count = 0, b_addresses = []\<rparr>
             | Some b \<Rightarrow> b) @ g_addresses g\<rparr>)
       bucketMap"
  by (simp add: mergeGroup_def keyOf_def Let_def)

lemma aggregate_snoc: "aggregate (gs @ [g]) = mergeGroup (aggregate gs) g"
  by (simp add: aggregate_def)

lemma aggregate_Nil: "aggregate [] = []"
  by (simp add: aggregate_def)

lemma groupsOfKey_snoc:
  "groupsOfKey k (gs @ [g]) = (if keyOf g = k then groupsOfKey k gs @ [g] else groupsOfKey k gs)"
  by (simp add: groupsOfKey_def)

lemma map_of_aggregate: "map_of (aggregate gs) k = bucketOfKey k gs"
proof (induction gs rule: rev_induct)
  case Nil
  then show ?case by (simp add: aggregate_Nil bucketOfKey_def groupsOfKey_def)
next
  case (snoc g gs)
  show ?case
  proof (cases "keyOf g = k")
    case False
    then have "map_of (aggregate (gs @ [g])) k = map_of (aggregate gs) k"
      by (simp add: aggregate_snoc mergeGroup_update update_conv')
    then show ?thesis
      using False snoc by (simp add: bucketOfKey_def groupsOfKey_snoc)
  next
    case True
    show ?thesis
    proof (cases "groupsOfKey k gs")
      case Nil
      then have "map_of (aggregate gs) (keyOf g) = None"
        using snoc True by (simp add: bucketOfKey_def)
      then show ?thesis
        using True Nil
        by (simp add: aggregate_snoc mergeGroup_update update_conv' bucketOfKey_def
            groupsOfKey_snoc)
    next
      case (Cons g0 rest)
      then have "map_of (aggregate gs) (keyOf g) = bucketOfGroups (g0 # rest)"
        using snoc True by (simp add: bucketOfKey_def)
      then show ?thesis
        using True Cons
        by (simp add: aggregate_snoc mergeGroup_update update_conv' bucketOfKey_def
            groupsOfKey_snoc)
    qed
  qed
qed

lemma distinct_aggregate: "distinct (map fst (aggregate gs))"
proof (induction gs rule: rev_induct)
  case Nil
  then show ?case by (simp add: aggregate_Nil)
next
  case (snoc g gs)
  then show ?case
    by (simp add: aggregate_snoc mergeGroup_update distinct_update)
qed

lemma in_aggregate_iff: "(k, b) \<in> set (aggregate gs) \<longleftrightarrow> bucketOfKey k gs = Some b"
  using map_of_eq_Some_iff [OF distinct_aggregate, of gs k b] map_of_aggregate [of gs k]
  by simp

lemma in_bucketsOf_iff: "b \<in> set (bucketsOf gs) \<longleftrightarrow> (\<exists>k. bucketOfKey k gs = Some b)"
  by (force simp: bucketsOf_def in_aggregate_iff [symmetric] image_iff)

lemma bucketOfKey_SomeD:
  assumes "bucketOfKey k gs = Some b"
  shows "\<exists>g0 \<in> set gs. keyOf g0 = k \<and> bucketTriple b = tripleOf g0"
    and "b_addresses b = concat (map g_addresses (groupsOfKey k gs))"
    and "b_count b = sum_list (map g_count (groupsOfKey k gs))"
    and "b_zones b = foldl (\<lambda>zs g. setAdd (originalZoneOf g) zs) [] (groupsOfKey k gs)"
proof -
  from assms obtain g0 rest where c: "groupsOfKey k gs = g0 # rest"
    by (cases "groupsOfKey k gs") (simp_all add: bucketOfKey_def)
  then have "g0 \<in> set (groupsOfKey k gs)" by simp
  then have g0: "g0 \<in> set gs" "keyOf g0 = k"
    by (simp_all add: groupsOfKey_def)
  have b: "b = \<lparr>b_pickupDateISO = g_pickupDateISO g0,
           b_onOffDutyTime = g_onOffDutyTime g0,
           b_clusterName = getZoneClusterName (originalZoneOf g0),
           b_zones = foldl (\<lambda>zs g. setAdd (originalZoneOf g) zs) [] (g0 # rest),
           b_count = sum_list (map g_count (g0 # rest)),
           b_addresses = concat (map g_addresses (g0 # rest))\<rparr>"
    using assms c by (simp add: bucketOfKey_def)
  show "\<exists>g0 \<in> set gs. keyOf g0 = k \<and> bucketTriple b = tripleOf g0"
    using g0 by (intro bexI [of _ g0]) (simp_all add: b bucketTriple_def tripleOf_alt)
  show "b_addresses b = concat (map g_addresses (groupsOfKey k gs))"
    by (simp add: b c)
  show "b_count b = sum_list (map g_count (groupsOfKey k gs))"
    by (simp add: b c)
  show "b_zones b = foldl (\<lambda>zs g. setAdd (originalZoneOf g) zs) [] (groupsOfKey k gs)"
    by (simp add: b c)
qed

lemma bucketOfKey_keyOf:
  assumes "g \<in> set gs"
  shows "\<exists>b. bucketOfKey (keyOf g) gs = Some b"
proof -
  have "g \<in> set (groupsOfKey (keyOf g) gs)"
    using assms by (simp add: groupsOfKey_def)
  then show ?thesis
    by (cases "groupsOfKey (keyOf g) gs") (simp_all add: bucketOfKey_def)
qed

lemma keyOf_tripleOf: "keyOf g = (case tripleOf g of (d, t, c) \<Rightarrow> bucketKeyOf d t c)"
  by (simp add: keyOf_def tripleOf_alt)

lemma tripleOf_eq_keyOf_eq: "tripleOf g = tripleOf h \<Longrightarrow> keyOf g = keyOf h"
  by (simp add: keyOf_tripleOf)

lemma set_foldl_setAdd:
  "set (foldl (\<lambda>zs g. setAdd (f g) zs) acc gs) = set acc \<union> f ` set gs"
  by (induction gs arbitrary: acc) (auto simp: setAdd_def)

lemma mset_concat_member:
  "g \<in> set gs \<Longrightarrow> mset (f g) \<subseteq># mset (concat (map f gs))"
proof (induction gs)
  case Nil
  then show ?case by simp
next
  case (Cons a gs)
  then show ?case
  proof (cases "g = a")
    case True
    then show ?thesis by simp
  next
    case False
    with Cons have "mset (f g) \<subseteq># mset (concat (map f gs))" by simp
    then show ?thesis
      by (simp add: subset_mset.add_increasing)
  qed
qed

text \<open>Totals over the buckets: one step of the loop adds the group to one bucket.\<close>

lemma update_total:
  fixes f :: "'b \<Rightarrow> 'c::comm_monoid_add"
  assumes "\<And>b. f (u b) = f b + c" and "f d = 0"
  shows "sum_list (map (\<lambda>p. f (snd p))
           (AList.update k (u (case map_of al k of None \<Rightarrow> d | Some b \<Rightarrow> b)) al))
         = sum_list (map (\<lambda>p. f (snd p)) al) + c"
proof (induction al)
  case Nil
  then show ?case by (simp add: assms)
next
  case (Cons p al)
  then show ?case
    by (cases p) (simp add: assms ac_simps)
qed

lemma mergeGroup_count:
  "sum_list (map (\<lambda>p. b_count (snd p)) (mergeGroup bm g))
     = sum_list (map (\<lambda>p. b_count (snd p)) bm) + g_count g"
  unfolding mergeGroup_update
  by (rule update_total [where f = b_count
        and u = "\<lambda>b. b\<lparr>b_zones := setAdd (originalZoneOf g) (b_zones b),
                         b_count := b_count b + g_count g,
                         b_addresses := b_addresses b @ g_addresses g\<rparr>"]) simp_all

lemma mergeGroup_addresses:
  "sum_list (map (\<lambda>p. mset (b_addresses (snd p))) (mergeGroup bm g))
     = sum_list (map (\<lambda>p. mset (b_addresses (snd p))) bm) + mset (g_addresses g)"
  unfolding mergeGroup_update
  by (rule update_total [where f = "\<lambda>b. mset (b_addresses b)"
        and u = "\<lambda>b. b\<lparr>b_zones := setAdd (originalZoneOf g) (b_zones b),
                         b_count := b_count b + g_count g,
                         b_addresses := b_addresses b @ g_addresses g\<rparr>"]) simp_all

lemma aggregate_count:
  "sum_list (map b_count (bucketsOf gs)) = sum_list (map g_count gs)"
proof -
  have "sum_list (map (\<lambda>p. b_count (snd p)) (aggregate gs)) = sum_list (map g_count gs)"
    by (induction gs rule: rev_induct)
      (simp_all add: aggregate_Nil aggregate_snoc mergeGroup_count)
  then show ?thesis
    by (simp add: bucketsOf_def comp_def)
qed

lemma mset_concat_sum: "mset (concat xss) = sum_list (map mset xss)"
  by (induction xss) simp_all

lemma aggregate_addresses:
  "mset (concat (map b_addresses (bucketsOf gs))) = mset (concat (map g_addresses gs))"
proof -
  have "sum_list (map (\<lambda>p. mset (b_addresses (snd p))) (aggregate gs))
          = sum_list (map (\<lambda>g. mset (g_addresses g)) gs)"
    by (induction gs rule: rev_induct)
      (simp_all add: aggregate_Nil aggregate_snoc mergeGroup_addresses)
  then show ?thesis
    by (simp add: bucketsOf_def mset_concat_sum comp_def)
qed

lemma bucket_key_of_fields:
  assumes "(k, b) \<in> set (aggregate gs)"
  shows "k = bucketKeyOf (b_pickupDateISO b) (b_onOffDutyTime b) (b_clusterName b)"
proof -
  from assms have "bucketOfKey k gs = Some b"
    by (simp add: in_aggregate_iff)
  from bucketOfKey_SomeD(1) [OF this]
  obtain g0 where "keyOf g0 = k" "bucketTriple b = tripleOf g0"
    by blast
  then show ?thesis
    by (auto simp: keyOf_def bucketTriple_def tripleOf_alt)
qed

lemma distinct_bucketTriple: "distinct (map bucketTriple (bucketsOf gs))"
proof -
  let ?key = "\<lambda>(d, t, c). bucketKeyOf d t c"
  have "map fst (aggregate gs) = map ?key (map bucketTriple (bucketsOf gs))"
    using bucket_key_of_fields [of _ _ gs]
    by (auto simp: bucketsOf_def bucketTriple_def)
  then have "distinct (map ?key (map bucketTriple (bucketsOf gs)))"
    using distinct_aggregate [of gs] by simp
  then show ?thesis
    by (simp add: distinct_map inj_on_def comp_def)
qed

text \<open>
  Claim C7 as stated fails: a group whose date is missing is not dropped. It is merged
  into a bucket whose key starts with the text \<open>undefined\<close>.
\<close>

theorem missing_date_counterexample:
  "g_pickupDateISO groupM = Undefined \<and>
   map fst (aggregate [groupA, groupM]) =
     [''2025-12-24__08:00__Mutley / Greenbank / Lipson / St Judes / Mount Gould'',
      ''undefined__08:00__Stoke''] \<and>
   map b_addresses (bucketsOf [groupA, groupM]) = [[stopA, stopB], g_addresses groupM]"
proof -
  have a: "g_pickupDateISO groupM = Undefined"
    by (simp add: groupM_def)
  have b: "map fst (aggregate [groupA, groupM]) =
     [''2025-12-24__08:00__Mutley / Greenbank / Lipson / St Judes / Mount Gould'',
      ''undefined__08:00__Stoke'']"
    by code_simp
  have c: "map b_addresses (bucketsOf [groupA, groupM]) = [[stopA, stopB], g_addresses groupM]"
    by code_simp
  show ?thesis
    using a b c by simp
qed

text \<open>
  Claim C7, amended. The bucket loop has no failure path and skips nothing: for every list
  of groups, every group, also one whose date or time is missing, is merged into the
  bucket stored under its key, which then holds the addresses and the zone of the group;
  the counts of the buckets add up to the counts of the groups.
\<close>

theorem aggregate_keeps_every_group:
  "(\<forall>g \<in> set gs. \<exists>b \<in> set (bucketsOf gs).
       map_of (aggregate gs) (keyOf g) = Some b \<and>
       mset (g_addresses g) \<subseteq># mset (b_addresses b) \<and>
       originalZoneOf g \<in> set (b_zones b)) \<and>
   sum_list (map b_count (bucketsOf gs)) = sum_list (map g_count gs)"
proof -
  have "\<exists>b \<in> set (bucketsOf gs).
          map_of (aggregate gs) (keyOf g) = Some b \<and>
          mset (g_addresses g) \<subseteq># mset (b_addresses b) \<and>
          originalZoneOf g \<in> set (b_zones b)" if g: "g \<in> set gs" for g
  proof -
    from bucketOfKey_keyOf [OF g] obtain b where b: "bucketOfKey (keyOf g) gs = Some b"
      by blast
    have m: "g \<in> set (groupsOfKey (keyOf g) gs)"
      using g by (simp add: groupsOfKey_def)
    have "b \<in> set (bucketsOf gs)"
      using b in_bucketsOf_iff by blast
    moreover have "map_of (aggregate gs) (keyOf g) = Some b"
      using b by (simp add: map_of_aggregate)
    moreover have "mset (g_addresses g) \<subseteq># mset (b_addresses b)"
      unfolding bucketOfKey_SomeD(2) [OF b] using m by (rule mset_concat_member)
    moreover have "originalZoneOf g \<in> set (b_zones b)"
      unfolding bucketOfKey_SomeD(4) [OF b] using m by (simp add: set_foldl_setAdd)
    ultimately show ?thesis by blast
  qed
  then show ?thesis
    using aggregate_count [of gs] by blast
qed

theorem aggregate_keeps_every_group_witness:
  "groupM \<in> set [groupA, groupM] \<and>
   (\<exists>b \<in> set (bucketsOf [groupA, groupM]).
       map_of (aggregate [groupA, groupM]) (keyOf groupM) = Some b \<and>
       mset (g_addresses groupM) \<subseteq># mset (b_addresses b) \<and>
       originalZoneOf groupM \<in> set (b_zones b)) \<and>
   sum_list (map b_count (bucketsOf [groupA, groupM])) = 3"
proof -
  have c: "sum_list (map g_count [groupA, groupM]) = 3"
    by (simp add: groupA_def groupM_def)
  show ?thesis
    using aggregate_keeps_every_group [of "[groupA, groupM]"] c by simp
qed

lemma underscore_split:
  assumes "CHR ''_'' \<notin> set x" and "CHR ''_'' \<notin> set y"
    and "x @ CHR ''_'' # r = y @ CHR ''_'' # r'"
  shows "x = y \<and> r = r'"
proof -
  have "takeWhile (\<lambda>c. c \<noteq> CHR ''_'') (x @ CHR ''_'' # r) = x"
    using assms(1) by (subst takeWhile_append2) auto
  moreover have "takeWhile (\<lambda>c. c \<noteq> CHR ''_'') (y @ CHR ''_'' # r') = y"
    using assms(2) by (subst takeWhile_append2) auto
  ultimately have "x = y"
    using assms(3) by simp
  then show ?thesis
    using assms(3) by simp
qed

lemma bucketKeyOf_inject:
  assumes "CHR ''_'' \<notin> set d" and "CHR ''_'' \<notin> set d'"
    and "CHR ''_'' \<notin> set t" and "CHR ''_'' \<notin> set t'"
    and "bucketKeyOf (Val d) (Val t) c = bucketKeyOf (Val d') (Val t') c'"
  shows "d = d' \<and> t = t' \<and> c = c'"
proof -
  from assms(5) have e: "d @ CHR ''_'' # (CHR ''_'' # t @ CHR ''_'' # CHR ''_'' # c)
      = d' @ CHR ''_'' # (CHR ''_'' # t' @ CHR ''_'' # CHR ''_'' # c')"
    by (simp add: bucketKeyOf_def)
  from underscore_split [OF assms(1,2) e]
  have d: "d = d'" and "t @ CHR ''_'' # (CHR ''_'' # c) = t' @ CHR ''_'' # (CHR ''_'' # c')"
    by simp_all
  from underscore_split [OF assms(3,4) this(2)] d show ?thesis
    by simp
qed

text \<open>Dates and times without an underscore give each triple a key of its own.\<close>

lemma keys_injective_without_underscore:
  assumes "\<forall>g \<in> set gs. \<exists>d t. g_pickupDateISO g = Val d \<and> g_onOffDutyTime g = Val t \<and>
             CHR ''_'' \<notin> set d \<and> CHR ''_'' \<notin> set t"
  shows "\<forall>g \<in> set gs. \<forall>h \<in> set gs. keyOf g = keyOf h \<longrightarrow> tripleOf g = tripleOf h"
proof (intro ballI impI)
  fix g h
  assume g: "g \<in> set gs" and h: "h \<in> set gs" and k: "keyOf g = keyOf h"
  from assms g obtain d t where gd: "g_pickupDateISO g = Val d" "g_onOffDutyTime g = Val t"
    "CHR ''_'' \<notin> set d" "CHR ''_'' \<notin> set t"
    by blast
  from assms h obtain d' t' where hd: "g_pickupDateISO h = Val d'" "g_onOffDutyTime h = Val t'"
    "CHR ''_'' \<notin> set d'" "CHR ''_'' \<notin> set t'"
    by blast
  have "bucketKeyOf (Val d) (Val t) (getZoneClusterName (originalZoneOf g))
          = bucketKeyOf (Val d') (Val t') (getZoneClusterName (originalZoneOf h))"
    using k gd hd by (simp add: keyOf_def)
  from bucketKeyOf_inject [OF gd(3) hd(3) gd(4) hd(4) this] show "tripleOf g = tripleOf h"
    using gd hd by (simp add: tripleOf_alt)
qed

text \<open>
  Claim C8 as stated fails: the key of the map is the text
  \<^verbatim>\<open>date__time__cluster\<close>, and two groups with different times and clusters can
  have the same text. The second group is then merged into the bucket of the first,
  whose date, time and cluster are not its own.
\<close>

theorem key_collision_counterexample:
  "tripleOf groupP = (Val ''2025-12-24'', Val ''08:00'', ''A__B'') \<and>
   tripleOf groupQ = (Val ''2025-12-24'', Val ''08:00__A'', ''B'') \<and>
   map bucketTriple (bucketsOf [groupP, groupQ]) = [tripleOf groupP] \<and>
   map b_addresses (bucketsOf [groupP, groupQ]) = [g_addresses groupP @ g_addresses groupQ]"
proof -
  have a: "tripleOf groupP = (Val ''2025-12-24'', Val ''08:00'', ''A__B'')"
    by code_simp
  have b: "tripleOf groupQ = (Val ''2025-12-24'', Val ''08:00__A'', ''B'')"
    by code_simp
  have c: "map bucketTriple (bucketsOf [groupP, groupQ]) = [tripleOf groupP]"
    by code_simp
  have d: "map b_addresses (bucketsOf [groupP, groupQ])
             = [g_addresses groupP @ g_addresses groupQ]"
    by code_simp
  show ?thesis
    using a b c d by simp
qed

text \<open>
  Claim C8, amended. For every list of groups in which groups with different
  (date, time, cluster label) have different key texts (as they have when no date and
  no time contains an underscore): each group is merged into exactly one bucket, the one
  whose date, time and cluster label are those of the group, and this bucket holds the
  addresses of the groups with this triple, in their order. For every list of groups,
  each address of the input is in exactly one bucket, and the triples of the buckets are
  pairwise distinct.
\<close>

theorem aggregate_buckets:
  assumes "\<forall>g \<in> set gs. \<forall>h \<in> set gs. keyOf g = keyOf h \<longrightarrow> tripleOf g = tripleOf h"
  shows "(\<forall>g \<in> set gs. \<exists>!b. b \<in> set (bucketsOf gs) \<and> bucketTriple b = tripleOf g) \<and>
         (\<forall>g \<in> set gs. \<forall>b \<in> set (bucketsOf gs). bucketTriple b = tripleOf g \<longrightarrow>
            b_addresses b =
              concat (map g_addresses (filter (\<lambda>h. tripleOf h = tripleOf g) gs))) \<and>
         mset (concat (map b_addresses (bucketsOf gs))) = mset (concat (map g_addresses gs)) \<and>
         distinct (map bucketTriple (bucketsOf gs))"
proof -
  have key: "k = keyOf g"
    if g: "g \<in> set gs" and b: "bucketOfKey k gs = Some b" and t: "bucketTriple b = tripleOf g"
    for g k b
  proof -
    from bucketOfKey_SomeD(1) [OF b] obtain g0
      where "g0 \<in> set gs" "keyOf g0 = k" "bucketTriple b = tripleOf g0"
      by blast
    then show ?thesis
      using t tripleOf_eq_keyOf_eq [of g0 g] by simp
  qed
  have ex: "\<exists>b. bucketOfKey (keyOf g) gs = Some b \<and> bucketTriple b = tripleOf g"
    if g: "g \<in> set gs" for g
  proof -
    from bucketOfKey_keyOf [OF g] obtain b where b: "bucketOfKey (keyOf g) gs = Some b"
      by blast
    from bucketOfKey_SomeD(1) [OF b] obtain g0
      where "g0 \<in> set gs" "keyOf g0 = keyOf g" "bucketTriple b = tripleOf g0"
      by blast
    moreover from this assms g have "tripleOf g0 = tripleOf g"
      by blast
    ultimately have "bucketTriple b = tripleOf g"
      by simp
    then show ?thesis
      using b by blast
  qed
  have one: "\<exists>!b. b \<in> set (bucketsOf gs) \<and> bucketTriple b = tripleOf g"
    if g: "g \<in> set gs" for g
  proof -
    from ex [OF g] obtain b where b: "bucketOfKey (keyOf g) gs = Some b"
      and t: "bucketTriple b = tripleOf g"
      by blast
    show ?thesis
    proof (intro ex1I [of _ b] conjI)
      show "b \<in> set (bucketsOf gs)"
        using b in_bucketsOf_iff by blast
      show "bucketTriple b = tripleOf g"
        by (rule t)
    next
      fix b'
      assume b': "b' \<in> set (bucketsOf gs) \<and> bucketTriple b' = tripleOf g"
      then obtain k where k: "bucketOfKey k gs = Some b'"
        using in_bucketsOf_iff by blast
      from key [OF g k] b' have "k = keyOf g" by simp
      then show "b' = b"
        using k b by simp
    qed
  qed
  have adr: "b_addresses b = concat (map g_addresses (filter (\<lambda>h. tripleOf h = tripleOf g) gs))"
    if g: "g \<in> set gs" and b: "b \<in> set (bucketsOf gs)" and t: "bucketTriple b = tripleOf g"
    for g b
  proof -
    from b obtain k where k: "bucketOfKey k gs = Some b"
      using in_bucketsOf_iff by blast
    from key [OF g k t] have kg: "k = keyOf g" .
    have "keyOf h = keyOf g \<longleftrightarrow> tripleOf h = tripleOf g" if "h \<in> set gs" for h
      using assms g that tripleOf_eq_keyOf_eq [of h g] by blast
    then have "filter (\<lambda>h. keyOf h = keyOf g) gs = filter (\<lambda>h. tripleOf h = tripleOf g) gs"
      by (intro filter_cong) simp_all
    then show ?thesis
      using bucketOfKey_SomeD(2) [OF k] kg by (simp add: groupsOfKey_def)
  qed
  show ?thesis
  proof (intro conjI ballI impI)
    fix g
    assume "g \<in> set gs"
    then show "\<exists>!b. b \<in> set (bucketsOf gs) \<and> bucketTriple b = tripleOf g"
      by (rule one)
  next
    fix g b
    assume "g \<in> set gs" "b \<in> set (bucketsOf gs)" "bucketTriple b = tripleOf g"
    then show "b_addresses b =
        concat (map g_addresses (filter (\<lambda>h. tripleOf h = tripleOf g) gs))"
      by (rule adr)
  next
    show "mset (concat (map b_addresses (bucketsOf gs))) = mset (concat (map g_addresses gs))"
      by (rule aggregate_addresses)
  next
    show "distinct (map bucketTriple (bucketsOf gs))"
      by (rule distinct_bucketTriple)
  qed
qed

theorem aggregate_buckets_witness:
  "(\<exists>!b. b \<in> set (bucketsOf [groupA, groupJan, groupB]) \<and>
          bucketTriple b = tripleOf groupB) \<and>
   mset (concat (map b_addresses (bucketsOf [groupA, groupJan, groupB])))
     = mset (concat (map g_addresses [groupA, groupJan, groupB])) \<and>
   distinct (map bucketTriple (bucketsOf [groupA, groupJan, groupB]))"
proof -
  have "\<forall>g \<in> set [groupA, groupJan, groupB].
          \<exists>d t. g_pickupDateISO g = Val d \<and> g_onOffDutyTime g = Val t \<and>
                CHR ''_'' \<notin> set d \<and> CHR ''_'' \<notin> set t"
    by (simp add: groupA_def groupJan_def groupB_def)
  then have h: "\<forall>g \<in> set [groupA, groupJan, groupB]. \<forall>h \<in> set [groupA, groupJan, groupB].
      keyOf g = keyOf h \<longrightarrow> tripleOf g = tripleOf h"
    by (rule keys_injective_without_underscore)
  note r = aggregate_buckets [OF h]
  have m: "groupB \<in> set [groupA, groupJan, groupB]"
    by simp
  show ?thesis
    using r [THEN conjunct1, THEN bspec, OF m]
      r [THEN conjunct2, THEN conjunct2, THEN conjunct1]
      r [THEN conjunct2, THEN conjunct2, THEN conjunct2]
    by (intro conjI)
qed


subsection \<open>The order of the output\<close>

lemma binaryInsertionSort_done:
  "high \<le> start \<Longrightarrow> binaryInsertionSort cmp workArray start high = Inr workArray"
  by (subst binaryInsertionSort.simps) simp

text \<open>
  Claim C1 at a failing input: the groups of 24 December 2025 and of 2 January 2026.
  The sort runs on the dates that \<^verbatim>\<open>toDDMMYY\<close> has already rewritten, so under every
  collation that puts \<^verbatim>\<open>"02-01-26"\<close> before \<^verbatim>\<open>"24-12-25"\<close> the group of January comes
  first, against the order of the ISO dates, whatever the arithmetic of the runtime. The
  sort calls the comparator with the later group first, which is how the hypothesis
  reads.
\<close>

theorem shiftGroups_sorts_formatted_date:
  assumes "localeCompare ''02-01-26'' ''24-12-25'' < 0"
  shows "\<exists>a b. shiftGroups ar localeCompare [groupA, groupJan] ''inbound'' = Inr [a, b] \<and>
           f_pickupDateISO a = toDDMMYY (g_pickupDateISO groupJan) \<and>
           f_pickupDateISO b = toDDMMYY (g_pickupDateISO groupA) \<and>
           g_pickupDateISO groupA = Val ''2025-12-24'' \<and>
           g_pickupDateISO groupJan = Val ''2026-01-02'' \<and>
           ''2025-12-24'' < ''2026-01-02''"
proof -
  have bs: "map b_pickupDateISO (bucketsOf [groupA, groupJan])
              = [Val ''2025-12-24'', Val ''2026-01-02'']"
    by code_simp
  then obtain b1 b2 where b: "bucketsOf [groupA, groupJan] = [b1, b2]"
    and d1: "b_pickupDateISO b1 = Val ''2025-12-24''"
    and d2: "b_pickupDateISO b2 = Val ''2026-01-02''"
    by (auto simp: map_eq_Cons_conv)
  have t1: "toDDMMYY (Val ''2025-12-24'') = ''24-12-25''"
    by code_simp
  have t2: "toDDMMYY (Val ''2026-01-02'') = ''02-01-26''"
    by code_simp
  let ?f1 = "formatBucket ar ''inbound'' b1"
  let ?f2 = "formatBucket ar ''inbound'' b2"
  have f1: "f_pickupDateISO ?f1 = ''24-12-25''"
    by (simp only: formatBucket_def Let_def d1 t1) simp
  have f2: "f_pickupDateISO ?f2 = ''02-01-26''"
    by (simp only: formatBucket_def Let_def d2 t2) simp
  have ne: "''02-01-26'' \<noteq> ''24-12-25''"
    by simp
  have c: "compareGroups localeCompare ?f2 ?f1 = Inr (localeCompare ''02-01-26'' ''24-12-25'')"
    using ne by (simp only: compareGroups_def f1 f2) simp
  have r: "countAndMakeRun (compareGroups localeCompare) [?f1, ?f2] = Inr (2, [?f2, ?f1])"
    using assms by (simp add: c)
  have "shiftGroups ar localeCompare [groupA, groupJan] ''inbound'' = Inr [?f2, ?f1]"
    by (simp only: shiftGroups_def sortWith_def b list.map r) (simp add: binaryInsertionSort_done)
  moreover have "''2025-12-24'' < ''2026-01-02''"
    by code_simp
  ultimately show ?thesis
    using f1 f2 t1 t2 by (simp add: groupA_def groupJan_def)
qed

theorem shiftGroups_sorts_formatted_date_witness:
  "codeUnitCompare ''02-01-26'' ''24-12-25'' < 0 \<and>
   (\<exists>a b. shiftGroups exactArith codeUnitCompare [groupA, groupJan] ''inbound'' = Inr [a, b] \<and>
           f_pickupDateISO a = toDDMMYY (g_pickupDateISO groupJan) \<and>
           f_pickupDateISO b = toDDMMYY (g_pickupDateISO groupA) \<and>
           g_pickupDateISO groupA = Val ''2025-12-24'' \<and>
           g_pickupDateISO groupJan = Val ''2026-01-02'' \<and>
           ''2025-12-24'' < ''2026-01-02'')"
proof -
  have h: "codeUnitCompare ''02-01-26'' ''24-12-25'' < 0"
    by code_simp
  show ?thesis
    using h shiftGroups_sorts_formatted_date [of codeUnitCompare exactArith, OF h] by (rule conjI)
qed

end
